theory Spec2Isabelle
  imports Main "HOL-Library.Word" "HOL-Library.Signed_Division"
begin

section \<open>Subject matching of the in-memory event bus\<close>

text \<open>
  The in-memory bus (package \<open>memory\<close>) decides whether a registered subscription pattern
  matches a published subject with \<open>matchSubject\<close>.  A Go string is a sequence of bytes,
  which is what \<^typ>\<open>string\<close> is here.  \<open>matchSubject\<close> delegates to \<open>filepath.Match\<close> of
  the Go standard library whenever the pattern holds a \<open>*\<close>; that function is not part
  of the repository, so it is transcribed below from the library
  (\<open>path/filepath/match.go\<close>, for a platform whose path separator is \<open>/\<close> and where the
  backslash escapes), together with \<open>utf8.DecodeRuneInString\<close>, which it calls.
\<close>

subsection \<open>\<open>utf8.DecodeRuneInString\<close>\<close>

definition RuneError :: nat where
  "RuneError = 0xFFFD"

text \<open>
  The decoder returns the code point and the number of bytes read.  The library looks the
  first byte up in a table (\<open>first\<close>) that gives the length of the sequence and the range
  the second byte must lie in; the table is written out here as the comparisons it
  encodes.  A mask \<open>b & 0x3F\<close> is \<open>b mod 64\<close>, a shift \<open>x << 6\<close> is \<open>x * 64\<close>.
\<close>

definition seqSize :: "nat \<Rightarrow> nat" where
  "seqSize s0 = (if s0 < 0xE0 then 2 else if s0 < 0xF0 then 3 else 4)"

definition acceptLo :: "nat \<Rightarrow> nat" where
  "acceptLo s0 = (if s0 = 0xE0 then 0xA0 else if s0 = 0xF0 then 0x90 else 0x80)"

definition acceptHi :: "nat \<Rightarrow> nat" where
  "acceptHi s0 = (if s0 = 0xED then 0x9F else if s0 = 0xF4 then 0x8F else 0xBF)"

definition byteAt :: "string \<Rightarrow> nat \<Rightarrow> nat" where
  "byteAt s i = of_char (s ! i)"

definition DecodeRuneInString :: "string \<Rightarrow> nat \<times> nat" where
  "DecodeRuneInString s =
     (if length s < 1 then (RuneError, 0)
      else let s0 = byteAt s 0 in
        if s0 < 0x80 then (s0, 1)
        else if s0 < 0xC2 \<or> 0xF4 < s0 then (RuneError, 1)
        else if length s < seqSize s0 then (RuneError, 1)
        else let s1 = byteAt s 1 in
          if s1 < acceptLo s0 \<or> acceptHi s0 < s1 then (RuneError, 1)
          else if seqSize s0 \<le> 2 then ((s0 mod 32) * 64 + s1 mod 64, 2)
          else let s2 = byteAt s 2 in
            if s2 < 0x80 \<or> 0xBF < s2 then (RuneError, 1)
            else if seqSize s0 \<le> 3
              then ((s0 mod 16) * 4096 + (s1 mod 64) * 64 + s2 mod 64, 3)
            else let s3 = byteAt s 3 in
              if s3 < 0x80 \<or> 0xBF < s3 then (RuneError, 1)
              else ((s0 mod 8) * 262144 + (s1 mod 64) * 4096 + (s2 mod 64) * 64
                      + s3 mod 64, 4))"

subsection \<open>\<open>filepath.Match\<close>\<close>

datatype error = ErrBadPattern

definition Separator :: char where
  "Separator = CHR ''/''"

definition backslash :: char where
  "backslash = CHR 0x5C"

text \<open>
  \<open>scanChunk\<close> first strips the leading stars, then scans up to the next star that is
  not inside a bracket expression.  \<open>scanLoop\<close> is that scan: it returns the index \<open>i\<close>
  at which the loop stops.  A backslash skips the byte after it, unless it is the last
  byte.
\<close>

fun scanLoop :: "bool \<Rightarrow> string \<Rightarrow> nat" where
  "scanLoop inrange [] = 0"
| "scanLoop inrange (c # cs) =
     (if c = backslash then
        (case cs of [] \<Rightarrow> 1 | _ # cs' \<Rightarrow> 2 + scanLoop inrange cs')
      else if c = CHR ''['' then 1 + scanLoop True cs
      else if c = CHR '']'' then 1 + scanLoop False cs
      else if c = CHR ''*'' then (if \<not> inrange then 0 else 1 + scanLoop inrange cs)
      else 1 + scanLoop inrange cs)"

definition scanChunk :: "string \<Rightarrow> bool \<times> string \<times> string" where
  "scanChunk pattern =
     (let star = (pattern \<noteq> [] \<and> hd pattern = CHR ''*'');
          p = dropWhile (\<lambda>c. c = CHR ''*'') pattern;
          i = scanLoop False p
      in (star, take i p, drop i p))"

text \<open>
  \<open>getEsc\<close> reads one, possibly escaped, character of a bracket expression.  Where the
  library sets \<open>err\<close> and goes on to compute values its callers then discard, the model
  returns the error at once.
\<close>

definition getEsc :: "string \<Rightarrow> error + (nat \<times> string)" where
  "getEsc chunk =
     (if chunk = [] \<or> hd chunk = CHR ''-'' \<or> hd chunk = CHR '']'' then Inl ErrBadPattern
      else let chunk1 = (if hd chunk = backslash then tl chunk else chunk) in
        if chunk1 = [] then Inl ErrBadPattern
        else case DecodeRuneInString chunk1 of (r, n) \<Rightarrow>
          if r = RuneError \<and> n = 1 then Inl ErrBadPattern
          else if drop n chunk1 = [] then Inl ErrBadPattern
          else Inr (r, drop n chunk1))"

lemma DecodeRuneInString_size: "s \<noteq> [] \<Longrightarrow> 0 < snd (DecodeRuneInString s)"
  by (simp add: DecodeRuneInString_def Let_def)

lemma getEsc_shorter:
  assumes "getEsc chunk = Inr (r, chunk')"
  shows "length chunk' < length chunk" and "chunk' \<noteq> []"
proof -
  from assms obtain chunk1 n where
    c1: "chunk1 \<noteq> []" "length chunk1 \<le> length chunk"
    and d: "DecodeRuneInString chunk1 = (r, n)" and c': "chunk' = drop n chunk1" "chunk' \<noteq> []"
    by (auto simp: getEsc_def Let_def split: if_splits prod.splits)
  from DecodeRuneInString_size [OF c1(1)] d have "0 < n" by simp
  with c1 c' show "length chunk' < length chunk" by simp
  from c' show "chunk' \<noteq> []" by simp
qed

text \<open>
  The loop over the ranges of a bracket expression: \<open>r\<close> is the character of the name
  being tested, \<open>match\<close> and \<open>nrange\<close> are the loop's variables.  It returns \<open>match\<close> and
  what is left of the chunk after the closing bracket.
\<close>

function parseRanges :: "nat \<Rightarrow> string \<Rightarrow> bool \<Rightarrow> nat \<Rightarrow> error + (bool \<times> string)" where
  "parseRanges r chunk match nrange =
     (if chunk \<noteq> [] \<and> hd chunk = CHR '']'' \<and> 0 < nrange then Inr (match, tl chunk)
      else case getEsc chunk of
        Inl err \<Rightarrow> Inl err
      | Inr (lo, chunk1) \<Rightarrow>
          if hd chunk1 = CHR ''-'' then
            (case getEsc (tl chunk1) of
               Inl err \<Rightarrow> Inl err
             | Inr (hi, chunk2) \<Rightarrow>
                 parseRanges r chunk2 (match \<or> (lo \<le> r \<and> r \<le> hi)) (nrange + 1))
          else parseRanges r chunk1 (match \<or> (lo \<le> r \<and> r \<le> lo)) (nrange + 1))"
  by pat_completeness auto
termination
  by (relation "measure (\<lambda>(r, chunk, match, nrange). length chunk)")
     (auto dest!: getEsc_shorter(1))

declare parseRanges.simps [simp del]

lemma parseRanges_shorter:
  "parseRanges r chunk match nrange = Inr (m, chunk') \<Longrightarrow> length chunk' \<le> length chunk"
proof (induction r chunk match nrange rule: parseRanges.induct)
  case (1 r chunk match nrange)
  note unf = "1.prems" [unfolded parseRanges.simps [of r chunk match nrange]]
  show ?case
  proof (cases "chunk \<noteq> [] \<and> hd chunk = CHR '']'' \<and> 0 < nrange")
    case True
    with unf show ?thesis by auto
  next
    case False
    with unf obtain lo chunk1 where g1: "getEsc chunk = Inr (lo, chunk1)"
      by (auto split: sum.splits)
    note l1 = getEsc_shorter(1) [OF g1]
    show ?thesis
    proof (cases "hd chunk1 = CHR ''-''")
      case dash: True
      with False g1 unf obtain hi chunk2 where g2: "getEsc (tl chunk1) = Inr (hi, chunk2)"
        and rec: "parseRanges r chunk2 (match \<or> (lo \<le> r \<and> r \<le> hi)) (nrange + 1) = Inr (m, chunk')"
        by (auto split: sum.splits)
      from "1.IH"(1) [OF False g1 refl dash g2 refl rec] getEsc_shorter(1) [OF g2] l1
      show ?thesis by simp
    next
      case nodash: False
      with False g1 unf
      have rec: "parseRanges r chunk1 (match \<or> (lo \<le> r \<and> r \<le> lo)) (nrange + 1) = Inr (m, chunk')"
        by auto
      from "1.IH"(2) [OF False g1 refl nodash rec] l1 show ?thesis by simp
    qed
  qed
qed

text \<open>
  \<open>matchChunk\<close> checks whether the chunk matches the beginning of \<open>s\<close>.  Its loop is
  \<open>matchLoop\<close>, over what is left of the chunk, what is left of \<open>s\<close> and the flag
  \<open>failed\<close>.  The three results of the library are \<open>Inl err\<close> for \<open>("", false, err)\<close>,
  \<open>Inr None\<close> for \<open>("", false, nil)\<close> and \<open>Inr (Some rest)\<close> for \<open>(rest, true, nil)\<close>.
  A backslash drops to the default case with the chunk advanced by one byte.
\<close>

function matchLoop :: "string \<Rightarrow> string \<Rightarrow> bool \<Rightarrow> error + string option" where
  "matchLoop [] s failed = (if failed then Inr None else Inr (Some s))"
| "matchLoop (c # chunk) s failed0 =
     (let failed = (failed0 \<or> s = []) in
      if c = CHR ''['' then
        (let r = (if \<not> failed then fst (DecodeRuneInString s) else 0);
             s1 = (if \<not> failed then drop (snd (DecodeRuneInString s)) s else s);
             negated = (chunk \<noteq> [] \<and> hd chunk = CHR ''^'');
             chunk1 = (if negated then tl chunk else chunk)
         in case parseRanges r chunk1 False 0 of
              Inl err \<Rightarrow> Inl err
            | Inr (match, chunk2) \<Rightarrow> matchLoop chunk2 s1 (failed \<or> match = negated))
      else if c = CHR ''?'' then
        (if \<not> failed
         then matchLoop chunk (drop (snd (DecodeRuneInString s)) s) (hd s = Separator)
         else matchLoop chunk s failed)
      else if c = backslash then
        (case chunk of
           [] \<Rightarrow> Inl ErrBadPattern
         | c' # chunk' \<Rightarrow>
             if \<not> failed then matchLoop chunk' (tl s) (c' \<noteq> hd s)
             else matchLoop chunk' s failed)
      else
        (if \<not> failed then matchLoop chunk (tl s) (c \<noteq> hd s)
         else matchLoop chunk s failed))"
  by pat_completeness auto
termination
  by (relation "measure (\<lambda>(chunk, s, failed). length chunk)")
     (auto dest!: parseRanges_shorter split: if_splits)

definition matchChunk :: "string \<Rightarrow> string \<Rightarrow> error + string option" where
  "matchChunk chunk s = matchLoop chunk s False"

text \<open>
  The loop of \<open>Match\<close> that, after a star, looks for a match of the chunk skipping
  \<open>i + 1\<close> bytes of the name, never skipping a separator.  \<open>lastChunk\<close> says that the
  pattern is exhausted (\<open>len(pattern) == 0\<close>): then a match must use up the name.
  \<open>Inr (Some t)\<close> is the \<open>continue Pattern\<close> with \<open>name = t\<close>, \<open>Inr None\<close> is the loop
  running to its end.
\<close>

fun starLoop :: "string \<Rightarrow> bool \<Rightarrow> string \<Rightarrow> error + string option" where
  "starLoop chunk lastChunk [] = Inr None"
| "starLoop chunk lastChunk (c # name') =
     (if c = Separator then Inr None
      else case matchChunk chunk name' of
        Inr (Some t) \<Rightarrow>
          if lastChunk \<and> t \<noteq> [] then starLoop chunk lastChunk name' else Inr (Some t)
      | Inr None \<Rightarrow> starLoop chunk lastChunk name'
      | Inl err \<Rightarrow> Inl err)"

lemma scanLoop_pos: "c \<noteq> CHR ''*'' \<Longrightarrow> 0 < scanLoop False (c # cs)"
  by (simp split: list.splits)

lemma scanChunk_shorter:
  assumes "pattern \<noteq> []" and "scanChunk pattern = (star, chunk, rest)"
  shows "length rest < length pattern"
proof (cases "hd pattern = CHR ''*''")
  case True
  with assms(1) have "length (dropWhile (\<lambda>c. c = CHR ''*'') pattern) < length pattern"
    by (cases pattern) (auto intro: le_imp_less_Suc length_dropWhile_le)
  with assms(2) show ?thesis
    by (auto simp: scanChunk_def Let_def)
next
  case False
  with assms(1) obtain c cs where p: "pattern = c # cs" "c \<noteq> CHR ''*''"
    by (cases pattern) auto
  from scanLoop_pos [OF p(2)] have "0 < scanLoop False (c # cs)" .
  with assms(2) p show ?thesis
    by (auto simp: scanChunk_def Let_def simp del: scanLoop.simps)
qed

text \<open>
  \<open>Match\<close> itself.  Each round of its loop takes the next chunk of the pattern and goes
  on with the rest of the pattern and what the chunk left of the name.  When a chunk
  does not match, also after the star has been tried, it returns false with no error and
  does not look at the rest of the pattern.
\<close>

function Match :: "string \<Rightarrow> string \<Rightarrow> error + bool" where
  "Match pattern name =
     (if pattern = [] then Inr (name = [])
      else (case scanChunk pattern of (star, chunk, rest) \<Rightarrow>
        if star \<and> chunk = [] then Inr (Separator \<notin> set name)
        else (case matchChunk chunk name of
          Inl err \<Rightarrow> Inl err
        | Inr ok \<Rightarrow>
            if ok \<noteq> None \<and> (the ok = [] \<or> rest \<noteq> []) then Match rest (the ok)
            else if star then
              (case starLoop chunk (rest = []) name of
                 Inl err \<Rightarrow> Inl err
               | Inr (Some t) \<Rightarrow> Match rest t
               | Inr None \<Rightarrow> Inr False)
            else Inr False)))"
  by pat_completeness auto
termination
  by (relation "measure (\<lambda>(pattern, name). length pattern)")
     (auto dest: scanChunk_shorter [OF _ sym])

declare Match.simps [simp del]

subsection \<open>\<open>matchSubject\<close>\<close>

text \<open>
  \<open>strings.Contains(pattern, "*")\<close> asks whether the byte \<open>*\<close> occurs in the pattern.
  \<open>strings.ReplaceAll(pattern, "*", "*")\<close> replaces every \<open>*\<close> by the one-byte string
  \<open>*\<close>.
\<close>

definition Contains_star :: "string \<Rightarrow> bool" where
  "Contains_star s = (CHR ''*'' \<in> set s)"

definition ReplaceAll_star :: "string \<Rightarrow> string \<Rightarrow> string" where
  "ReplaceAll_star s new = concat (map (\<lambda>c. if c = CHR ''*'' then new else [c]) s)"

definition matchSubject :: "string \<Rightarrow> string \<Rightarrow> bool" where
  "matchSubject pattern subject =
     (if \<not> Contains_star pattern then pattern = subject
      else let filePattern = ReplaceAll_star pattern ''*'' in
        case Match filePattern subject of
          Inl err \<Rightarrow> False
        | Inr matched \<Rightarrow> matched)"

section \<open>The in-memory event bus\<close>

text \<open>
  \<open>MemoryBus\<close> has three maps: the broadcast handlers of a pattern, the handlers of each
  group of a pattern, and the round-robin cursor of each group of a pattern.  An
  \<open>EventHandler\<close> is a Go function value, which may be \<open>nil\<close>: a value of \<^typ>\<open>'h option\<close>,
  with \<^typ>\<open>'h\<close> the callable functions.  An event pointer is a value of \<^typ>\<open>'e option\<close> in
  the same way.  The cursor is a Go \<open>int\<close>, a signed 64-bit word read with \<^const>\<open>sint\<close>.
  The fields are maps made by \<open>NewMemoryBus\<close> and \<open>Close\<close>; the inner maps of \<open>groups\<close>
  and \<open>groupIndex\<close> are made by \<open>SubscribeWithHandlerGroup\<close>.  The mutex is left out:
  every operation is modelled as one atomic step.
\<close>

record 'h MemoryBus =
  handlers :: "string \<rightharpoonup> 'h option list"
  groups :: "string \<rightharpoonup> (string \<rightharpoonup> 'h option list)"
  groupIndex :: "string \<rightharpoonup> (string \<rightharpoonup> 64 word)"

definition NewMemoryBus :: "'h MemoryBus" where
  "NewMemoryBus = \<lparr>handlers = Map.empty, groups = Map.empty, groupIndex = Map.empty\<rparr>"

text \<open>
  Reading a Go map at a missing key gives the zero value: the empty slice for a handler
  list, a \<open>nil\<close> map (which reads as an empty one) for a group map, \<open>0\<close> for a cursor
  (also when the inner map itself is missing).
\<close>

definition handlersAt :: "(string \<rightharpoonup> 'h option list) \<Rightarrow> string \<Rightarrow> 'h option list" where
  "handlersAt m k = (case m k of None \<Rightarrow> [] | Some hs \<Rightarrow> hs)"

definition groupsAt ::
  "(string \<rightharpoonup> (string \<rightharpoonup> 'h option list)) \<Rightarrow> string \<Rightarrow> (string \<rightharpoonup> 'h option list)" where
  "groupsAt gr p = (case gr p of None \<Rightarrow> Map.empty | Some gm \<Rightarrow> gm)"

definition cursor :: "(string \<rightharpoonup> (string \<rightharpoonup> 64 word)) \<Rightarrow> string \<Rightarrow> string \<Rightarrow> 64 word" where
  "cursor gi pattern grp =
     (case gi pattern of
        None \<Rightarrow> 0
      | Some m \<Rightarrow> (case m grp of None \<Rightarrow> 0 | Some c \<Rightarrow> c))"

subsection \<open>Registration and reset\<close>

text \<open>
  An operation returns its Go \<open>error\<close> (\<open>None\<close> for \<open>nil\<close>, else the message of
  \<open>fmt.Errorf\<close>) and the bus after it.  The context argument is never inspected by the
  bus and is left out.
\<close>

definition Subscribe ::
  "'h MemoryBus \<Rightarrow> string \<Rightarrow> 'h option \<Rightarrow> string option \<times> 'h MemoryBus" where
  "Subscribe b subject handler =
     (if subject = [] then (Some ''subject is required'', b)
      else if handler = None then (Some ''handler is required'', b)
      else (None,
        b\<lparr>handlers := (handlers b)(subject \<mapsto> handlersAt (handlers b) subject @ [handler])\<rparr>))"

definition SubscribeWithHandlerGroup ::
  "'h MemoryBus \<Rightarrow> string \<Rightarrow> string \<Rightarrow> 'h option \<Rightarrow> string option \<times> 'h MemoryBus" where
  "SubscribeWithHandlerGroup b subject grp handler =
     (if subject = [] then (Some ''subject is required'', b)
      else if grp = [] then (Some ''group is required'', b)
      else if handler = None then (Some ''handler is required'', b)
      else
        let gs = groupsAt (groups b) subject;
            gi = (case groupIndex b subject of None \<Rightarrow> Map.empty | Some m \<Rightarrow> m)
        in (None,
          b\<lparr>groups := (groups b)(subject \<mapsto> gs(grp \<mapsto> handlersAt gs grp @ [handler])),
            groupIndex := (groupIndex b)(subject \<mapsto> gi)\<rparr>))"

definition Close :: "'h MemoryBus \<Rightarrow> string option \<times> 'h MemoryBus" where
  "Close b = (None, \<lparr>handlers = Map.empty, groups = Map.empty, groupIndex = Map.empty\<rparr>)"

subsection \<open>Publish\<close>

text \<open>
  What a publish does to the world is the sequence of handler calls it makes.  Each call
  is recorded with the handler, the event, what the handler returned (\<open>None\<close> for \<open>nil\<close>,
  else the error's message) and, as a label that the code does not have, the registry
  entry the call was dispatched from.  The handlers are opaque to the bus: \<open>run h e\<close> is
  what handler \<open>h\<close> returns on event \<open>e\<close>; a handler is taken to return, and to leave the
  bus alone.  Calling a \<open>nil\<close> function, indexing a slice out of range and writing to a
  \<open>nil\<close> map panic.  \<open>invoke\<close> is one call: it gives back what the handler returned.
\<close>

datatype origin = Broadcast string | Group string string

record ('h, 'e) call =
  callee :: 'h
  arg :: 'e
  via :: origin
  returned :: "string option"

datatype panic = NilFuncCall | IndexOutOfRange | NilMapWrite

definition invoke ::
  "('h \<Rightarrow> 'e \<Rightarrow> string option) \<Rightarrow> origin \<Rightarrow> 'h option \<Rightarrow> 'e \<Rightarrow> ('h, 'e) call list
     \<Rightarrow> panic + string option \<times> ('h, 'e) call list" where
  "invoke run src handler e tr =
     (case handler of
        None \<Rightarrow> Inl NilFuncCall
      | Some f \<Rightarrow> Inr (run f e, tr @ [\<lparr>callee = f, arg = e, via = src, returned = run f e\<rparr>]))"

text \<open>
  Go ranges over a map in an order that is not specified.  The order a publish takes is
  a parameter of the model: the keys of \<open>handlers\<close>, the keys of \<open>groups\<close>, and for every
  pattern the keys of its group map, each key once.
\<close>

record rangeOrder =
  handlerKeys :: "string list"
  groupKeys :: "string list"
  memberKeys :: "string \<Rightarrow> string list"

definition rangeOf :: "('k \<rightharpoonup> 'v) \<Rightarrow> 'k list \<Rightarrow> bool" where
  "rangeOf m ks = (distinct ks \<and> set ks = dom m)"

definition validOrder :: "'h MemoryBus \<Rightarrow> rangeOrder \<Rightarrow> bool" where
  "validOrder b ord =
     (rangeOf (handlers b) (handlerKeys ord) \<and> rangeOf (groups b) (groupKeys ord) \<and>
      (\<forall>p gm. groups b p = Some gm \<longrightarrow> rangeOf gm (memberKeys ord p)))"

text \<open>The inner loop of the broadcast: every handler of one pattern, in the slice's order.\<close>

fun callAll ::
  "('h \<Rightarrow> 'e \<Rightarrow> string option) \<Rightarrow> string \<Rightarrow> 'h option list \<Rightarrow> 'e \<Rightarrow> ('h, 'e) call list
     \<Rightarrow> panic + ('h, 'e) call list" where
  "callAll run pattern [] e tr = Inr tr"
| "callAll run pattern (handler # hs) e tr =
     (case invoke run (Broadcast pattern) handler e tr of
        Inl p \<Rightarrow> Inl p
      | Inr (err, tr') \<Rightarrow> callAll run pattern hs e tr')"

fun broadcastLoop ::
  "('h \<Rightarrow> 'e \<Rightarrow> string option) \<Rightarrow> 'h MemoryBus \<Rightarrow> string \<Rightarrow> 'e \<Rightarrow> string list
     \<Rightarrow> ('h, 'e) call list \<Rightarrow> panic + ('h, 'e) call list" where
  "broadcastLoop run b subject e [] tr = Inr tr"
| "broadcastLoop run b subject e (pattern # ps) tr =
     (if matchSubject pattern subject then
        (case callAll run pattern (handlersAt (handlers b) pattern) e tr of
           Inl p \<Rightarrow> Inl p
         | Inr tr' \<Rightarrow> broadcastLoop run b subject e ps tr')
      else broadcastLoop run b subject e ps tr)"

text \<open>
  The round-robin step, which is the same in both files of the package: take the handler
  at the cursor modulo the number of handlers, advance the cursor, call the handler.  It
  returns what the handler returned.  Go's \<open>%\<close> truncates towards zero (\<open>smod\<close>), so a
  negative cursor gives an index that is negative or zero.
\<close>

definition roundRobin ::
  "('h \<Rightarrow> 'e \<Rightarrow> string option) \<Rightarrow> string \<Rightarrow> string \<Rightarrow> 'h option list \<Rightarrow> 'e
     \<Rightarrow> 'h MemoryBus \<times> ('h, 'e) call list
     \<Rightarrow> panic + string option \<times> 'h MemoryBus \<times> ('h, 'e) call list" where
  "roundRobin run pattern grp hs e st =
     (case st of (b, tr) \<Rightarrow>
        let index = sint (cursor (groupIndex b) pattern grp) smod int (length hs) in
        if index < 0 \<or> int (length hs) \<le> index then Inl IndexOutOfRange
        else
          let handler = hs ! nat index in
          (case groupIndex b pattern of
             None \<Rightarrow> Inl NilMapWrite
           | Some m \<Rightarrow>
               let b' = b\<lparr>groupIndex := (groupIndex b)(pattern \<mapsto>
                          m(grp \<mapsto> cursor (groupIndex b) pattern grp + 1))\<rparr>
               in (case invoke run (Group pattern grp) handler e tr of
                     Inl p \<Rightarrow> Inl p
                   | Inr (err, tr') \<Rightarrow> Inr (err, b', tr'))))"

text \<open>
  The body of the loop over the groups of a matching pattern: a group without handlers is
  skipped, and what the selected handler returns is dropped.
\<close>

definition dispatchGroup ::
  "('h \<Rightarrow> 'e \<Rightarrow> string option) \<Rightarrow> string \<Rightarrow> string \<Rightarrow> 'h option list \<Rightarrow> 'e
     \<Rightarrow> 'h MemoryBus \<times> ('h, 'e) call list \<Rightarrow> panic + 'h MemoryBus \<times> ('h, 'e) call list" where
  "dispatchGroup run pattern grp hs e st =
     (if length hs = 0 then Inr st
      else case roundRobin run pattern grp hs e st of
        Inl p \<Rightarrow> Inl p
      | Inr (err, st') \<Rightarrow> Inr st')"

fun memberLoop ::
  "('h \<Rightarrow> 'e \<Rightarrow> string option) \<Rightarrow> string \<Rightarrow> (string \<rightharpoonup> 'h option list) \<Rightarrow> 'e \<Rightarrow> string list
     \<Rightarrow> 'h MemoryBus \<times> ('h, 'e) call list \<Rightarrow> panic + 'h MemoryBus \<times> ('h, 'e) call list" where
  "memberLoop run pattern groupHandlers e [] st = Inr st"
| "memberLoop run pattern groupHandlers e (grp # gs) st =
     (case dispatchGroup run pattern grp (handlersAt groupHandlers grp) e st of
        Inl p \<Rightarrow> Inl p
      | Inr st' \<Rightarrow> memberLoop run pattern groupHandlers e gs st')"

fun groupLoop ::
  "('h \<Rightarrow> 'e \<Rightarrow> string option) \<Rightarrow> (string \<rightharpoonup> (string \<rightharpoonup> 'h option list)) \<Rightarrow> string \<Rightarrow> 'e
     \<Rightarrow> (string \<Rightarrow> string list) \<Rightarrow> string list
     \<Rightarrow> 'h MemoryBus \<times> ('h, 'e) call list \<Rightarrow> panic + 'h MemoryBus \<times> ('h, 'e) call list" where
  "groupLoop run gr subject e inner [] st = Inr st"
| "groupLoop run gr subject e inner (pattern # ps) st =
     (if matchSubject pattern subject then
        (case memberLoop run pattern (groupsAt gr pattern) e (inner pattern) st of
           Inl p \<Rightarrow> Inl p
         | Inr st' \<Rightarrow> groupLoop run gr subject e inner ps st')
      else groupLoop run gr subject e inner ps st)"

definition Publish ::
  "rangeOrder \<Rightarrow> ('h \<Rightarrow> 'e \<Rightarrow> string option) \<Rightarrow> 'h MemoryBus \<Rightarrow> string \<Rightarrow> 'e option
     \<Rightarrow> panic + string option \<times> 'h MemoryBus \<times> ('h, 'e) call list" where
  "Publish ord run b subject event =
     (if subject = [] then Inr (Some ''subject is required'', b, [])
      else case event of
        None \<Rightarrow> Inr (Some ''event is required'', b, [])
      | Some e \<Rightarrow>
          (case broadcastLoop run b subject e (handlerKeys ord) [] of
             Inl p \<Rightarrow> Inl p
           | Inr tr \<Rightarrow>
               (case groupLoop run (groups b) subject e (memberKeys ord) (groupKeys ord) (b, tr) of
                  Inl p \<Rightarrow> Inl p
                | Inr (b', tr') \<Rightarrow> Inr (None, b', tr'))))"

subsection \<open>The other \<open>Publish\<close>\<close>

text \<open>
  The other file of package \<open>memory\<close> declares the same \<open>MemoryBus\<close> with a \<open>Publish\<close> that
  checks nothing, looks the subject up as it is, and returns at the first handler that
  fails, with the handler's error wrapped.  It is \<open>PublishExact\<close> here.  Its event is
  passed on to the handlers without a look at it, \<open>nil\<close> or not.
\<close>

fun callEach ::
  "('h \<Rightarrow> 'e \<Rightarrow> string option) \<Rightarrow> string \<Rightarrow> 'h option list \<Rightarrow> 'e \<Rightarrow> ('h, 'e) call list
     \<Rightarrow> panic + string option \<times> ('h, 'e) call list" where
  "callEach run subject [] e tr = Inr (None, tr)"
| "callEach run subject (handler # hs) e tr =
     (case invoke run (Broadcast subject) handler e tr of
        Inl p \<Rightarrow> Inl p
      | Inr (Some msg, tr') \<Rightarrow> Inr (Some (''handler error: '' @ msg), tr')
      | Inr (None, tr') \<Rightarrow> callEach run subject hs e tr')"

fun memberEach ::
  "('h \<Rightarrow> 'e \<Rightarrow> string option) \<Rightarrow> string \<Rightarrow> (string \<rightharpoonup> 'h option list) \<Rightarrow> 'e \<Rightarrow> string list
     \<Rightarrow> 'h MemoryBus \<times> ('h, 'e) call list
     \<Rightarrow> panic + string option \<times> 'h MemoryBus \<times> ('h, 'e) call list" where
  "memberEach run subject groupHandlers e [] st = Inr (None, st)"
| "memberEach run subject groupHandlers e (grp # gs) st =
     (if length (handlersAt groupHandlers grp) = 0 then memberEach run subject groupHandlers e gs st
      else case roundRobin run subject grp (handlersAt groupHandlers grp) e st of
        Inl p \<Rightarrow> Inl p
      | Inr (Some msg, st') \<Rightarrow> Inr (Some (''group handler error: '' @ msg), st')
      | Inr (None, st') \<Rightarrow> memberEach run subject groupHandlers e gs st')"

definition PublishExact ::
  "rangeOrder \<Rightarrow> ('h \<Rightarrow> 'e \<Rightarrow> string option) \<Rightarrow> 'h MemoryBus \<Rightarrow> string \<Rightarrow> 'e
     \<Rightarrow> panic + string option \<times> 'h MemoryBus \<times> ('h, 'e) call list" where
  "PublishExact ord run b subject event =
     (case callEach run subject (handlersAt (handlers b) subject) event [] of
        Inl p \<Rightarrow> Inl p
      | Inr (Some err, tr) \<Rightarrow> Inr (Some err, b, tr)
      | Inr (None, tr) \<Rightarrow>
          (case groups b subject of
             None \<Rightarrow> Inr (None, b, tr)
           | Some groupHandlers \<Rightarrow>
               memberEach run subject groupHandlers event (memberKeys ord subject) (b, tr)))"

section \<open>What a publish is expected to do\<close>

text \<open>
  The definitions of this section are not in the code: they say which states the bus is
  used in and which calls a publish is expected to make, and the theorems below compare
  the code with them.

  A bus is well formed when no stored handler is \<open>nil\<close> and every pattern with a group
  map has a cursor map; \<open>Subscribe\<close>, \<open>SubscribeWithHandlerGroup\<close>, \<open>Close\<close> and \<open>Publish\<close>
  keep it so.  \<open>cursorsBelow b k\<close> says that every cursor is at least \<open>0\<close> and less than
  \<open>k\<close>; with \<open>k = 2 ^ 63\<close> it says that no cursor has wrapped around to a negative value.
\<close>

definition wellFormed :: "'h MemoryBus \<Rightarrow> bool" where
  "wellFormed b =
     ((\<forall>p. None \<notin> set (handlersAt (handlers b) p)) \<and>
      (\<forall>p gm g. groups b p = Some gm \<longrightarrow> None \<notin> set (handlersAt gm g)) \<and>
      (\<forall>p. groups b p \<noteq> None \<longrightarrow> groupIndex b p \<noteq> None))"

definition cursorsBelow :: "'h MemoryBus \<Rightarrow> int \<Rightarrow> bool" where
  "cursorsBelow b k =
     (\<forall>p g. 0 \<le> sint (cursor (groupIndex b) p g) \<and> sint (cursor (groupIndex b) p g) < k)"

definition callsOf ::
  "('h \<Rightarrow> 'e \<Rightarrow> string option) \<Rightarrow> origin \<Rightarrow> 'e \<Rightarrow> 'h option \<Rightarrow> ('h, 'e) call list" where
  "callsOf run src e handler =
     (case handler of
        None \<Rightarrow> []
      | Some f \<Rightarrow> [\<lparr>callee = f, arg = e, via = src, returned = run f e\<rparr>])"

definition broadcastCalls ::
  "('h \<Rightarrow> 'e \<Rightarrow> string option) \<Rightarrow> 'h MemoryBus \<Rightarrow> string \<Rightarrow> 'e \<Rightarrow> string list
     \<Rightarrow> ('h, 'e) call list" where
  "broadcastCalls run b subject e ps =
     concat (map (\<lambda>p. concat (map (callsOf run (Broadcast p) e) (handlersAt (handlers b) p)))
       (filter (\<lambda>p. matchSubject p subject) ps))"

definition slot :: "'h option list \<Rightarrow> 64 word \<Rightarrow> nat" where
  "slot hs c = nat (sint c) mod length hs"

definition selectCall ::
  "('h \<Rightarrow> 'e \<Rightarrow> string option) \<Rightarrow> string \<Rightarrow> (string \<rightharpoonup> 'h option list)
     \<Rightarrow> (string \<rightharpoonup> (string \<rightharpoonup> 64 word)) \<Rightarrow> 'e \<Rightarrow> string \<Rightarrow> ('h, 'e) call list" where
  "selectCall run p gm gi e g =
     (let hs = handlersAt gm g in
      if hs = [] then []
      else callsOf run (Group p g) e (hs ! slot hs (cursor gi p g)))"

definition memberCalls ::
  "('h \<Rightarrow> 'e \<Rightarrow> string option) \<Rightarrow> string \<Rightarrow> (string \<rightharpoonup> 'h option list)
     \<Rightarrow> (string \<rightharpoonup> (string \<rightharpoonup> 64 word)) \<Rightarrow> 'e \<Rightarrow> string list \<Rightarrow> ('h, 'e) call list" where
  "memberCalls run p gm gi e gs = concat (map (selectCall run p gm gi e) gs)"

definition groupCalls ::
  "('h \<Rightarrow> 'e \<Rightarrow> string option) \<Rightarrow> 'h MemoryBus \<Rightarrow> string \<Rightarrow> 'e
     \<Rightarrow> (string \<Rightarrow> string list) \<Rightarrow> string list \<Rightarrow> ('h, 'e) call list" where
  "groupCalls run b subject e inner ps =
     concat (map (\<lambda>p. memberCalls run p (groupsAt (groups b) p) (groupIndex b) e (inner p))
       (filter (\<lambda>p. matchSubject p subject) ps))"

definition dispatched :: "'h MemoryBus \<Rightarrow> string \<Rightarrow> string \<Rightarrow> string \<Rightarrow> bool" where
  "dispatched b subject p g =
     (matchSubject p subject \<and> handlersAt (groupsAt (groups b) p) g \<noteq> [])"

definition stepped :: "'h MemoryBus \<Rightarrow> 'h MemoryBus \<Rightarrow> (string \<Rightarrow> string \<Rightarrow> bool) \<Rightarrow> bool" where
  "stepped b b' D =
     (handlers b' = handlers b \<and> groups b' = groups b \<and>
      (\<forall>p. (groupIndex b' p = None) = (groupIndex b p = None)) \<and>
      (\<forall>p g. cursor (groupIndex b') p g =
         cursor (groupIndex b) p g + (if D p g then 1 else 0)))"

text \<open>A call without what the handler returned: the handler, the event and the registry entry.\<close>

definition erase :: "('h, 'e) call \<Rightarrow> 'h \<times> 'e \<times> origin" where
  "erase c = (callee c, arg c, via c)"

subsection \<open>Consecutive publishes\<close>

text \<open>
  \<open>publishAll\<close> is a caller that publishes a list of events to one subject, one after the
  other, each publish with the iteration order given with its event.  It collects what
  the publishes return and the calls they make.  \<open>rotation\<close> is the sequence of calls a
  group is expected to get from consecutive publishes when its cursor starts at \<open>n\<close>.
\<close>

fun publishAll ::
  "('h \<Rightarrow> 'e \<Rightarrow> string option) \<Rightarrow> 'h MemoryBus \<Rightarrow> string \<Rightarrow> (rangeOrder \<times> 'e) list
     \<Rightarrow> panic + string option list \<times> 'h MemoryBus \<times> ('h, 'e) call list" where
  "publishAll run b subject [] = Inr ([], b, [])"
| "publishAll run b subject ((ord, e) # rest) =
     (case Publish ord run b subject (Some e) of
        Inl p \<Rightarrow> Inl p
      | Inr (err, b', tr) \<Rightarrow>
          (case publishAll run b' subject rest of
             Inl p \<Rightarrow> Inl p
           | Inr (errs, b'', tr') \<Rightarrow> Inr (err # errs, b'', tr @ tr')))"

fun rotation ::
  "('h \<Rightarrow> 'e \<Rightarrow> string option) \<Rightarrow> origin \<Rightarrow> 'h option list \<Rightarrow> nat \<Rightarrow> 'e list
     \<Rightarrow> ('h, 'e) call list" where
  "rotation run src hs n [] = []"
| "rotation run src hs n (e # es) =
     callsOf run src e (hs ! (n mod length hs)) @ rotation run src hs (Suc n) es"

section \<open>Matching by segments, and the chunks of a pattern\<close>

text \<open>
  The specification describes matching segment by segment: the pattern and the subject
  are cut at the dots, the two must have the same number of segments, a segment \<open>*\<close> of
  the pattern matches any segment that is not empty, and any other segment of the
  pattern matches the equal segment only; a pattern without \<open>*\<close> matches the equal
  subject only.  \<open>specMatches\<close> is that description, following the specification's words
  and not the code, to be compared with \<open>matchSubject\<close>.
\<close>

fun splitDots :: "string \<Rightarrow> string list" where
  "splitDots [] = [[]]"
| "splitDots (c # cs) =
     (if c = CHR ''.'' then [] # splitDots cs
      else (case splitDots cs of seg # segs \<Rightarrow> (c # seg) # segs | [] \<Rightarrow> [[c]]))"

definition segmentMatches :: "string \<Rightarrow> string \<Rightarrow> bool" where
  "segmentMatches p s = (if p = ''*'' then s \<noteq> [] else p = s)"

definition specMatches :: "string \<Rightarrow> string \<Rightarrow> bool" where
  "specMatches pattern subject =
     (if CHR ''*'' \<notin> set pattern then pattern = subject
      else list_all2 segmentMatches (splitDots pattern) (splitDots subject))"

text \<open>
  The chunks \<open>Match\<close> cuts a pattern into, and the patterns with a chunk that \<open>matchChunk\<close>
  rejects as badly formed (\<open>ErrBadPattern\<close>), whatever the name.
\<close>

function chunks :: "string \<Rightarrow> string list" where
  "chunks pattern =
     (if pattern = [] then []
      else (case scanChunk pattern of (star, chunk, rest) \<Rightarrow> chunk # chunks rest))"
  by pat_completeness auto
termination
  by (relation "measure length") (auto dest: scanChunk_shorter [OF _ sym])

declare chunks.simps [simp del]

definition malformed :: "string \<Rightarrow> bool" where
  "malformed pattern = (\<exists>chunk\<in>set (chunks pattern). matchChunk chunk [] = Inl ErrBadPattern)"

section \<open>Example buses\<close>

text \<open>
  Small buses, iteration orders for them, and two handler behaviours: under \<open>demoRun\<close>
  the handlers \<open>1\<close> and \<open>5\<close> fail, under \<open>groupRun\<close> the handler \<open>5\<close> only, under
  \<open>quietRun\<close> none.  The theorems
  below are instantiated on them.  \<open>demoBus\<close> is
  what five registrations build from the empty bus; \<open>idleBus\<close> also has a group with no
  handler and cursors that have already advanced; \<open>otherBus\<close> differs from \<open>demoBus\<close>
  in the handlers and the cursor of the group \<open>g2\<close> only.  \<open>emptyOrder\<close> is the iteration
  order of the empty bus, \<open>starOrder\<close> that of a bus whose only registration is a broadcast
  handler for the pattern \<open>a.*\<close>.  \<open>earlyBus\<close> has one group with one handler, to which one
  publish has been dispatched; \<open>lateBus\<close> is \<open>earlyBus\<close> after a second handler has joined the
  group, so that its cursor is \<open>1\<close> when the second handler arrives.
\<close>

definition demoBus :: "nat MemoryBus" where
  "demoBus =
     \<lparr>handlers = [''a.b'' \<mapsto> [Some 1, Some 2]],
      groups = [''a.b'' \<mapsto> [''g1'' \<mapsto> [Some 3, Some 4], ''g2'' \<mapsto> [Some 5]]],
      groupIndex = [''a.b'' \<mapsto> Map.empty]\<rparr>"

definition demoOrder :: rangeOrder where
  "demoOrder =
     \<lparr>handlerKeys = [''a.b''], groupKeys = [''a.b''],
      memberKeys = (\<lambda>p. if p = ''a.b'' then [''g2'', ''g1''] else [])\<rparr>"

definition demoRun :: "nat \<Rightarrow> nat \<Rightarrow> string option" where
  "demoRun h e = (if h = 1 \<or> h = 5 then Some ''boom'' else None)"

definition groupRun :: "nat \<Rightarrow> nat \<Rightarrow> string option" where
  "groupRun h e = (if h = 5 then Some ''boom'' else None)"

definition quietRun :: "nat \<Rightarrow> nat \<Rightarrow> string option" where
  "quietRun h e = None"

definition idleBus :: "nat MemoryBus" where
  "idleBus = demoBus\<lparr>groups := [''a.b'' \<mapsto> [''g0'' \<mapsto> [], ''g1'' \<mapsto> [Some 3, Some 4]],
                                ''a.c'' \<mapsto> [''g1'' \<mapsto> [Some 6]]],
                     groupIndex := [''a.b'' \<mapsto> [''g0'' \<mapsto> 7, ''g1'' \<mapsto> 5], ''a.c'' \<mapsto> Map.empty]\<rparr>"

definition idleOrder :: rangeOrder where
  "idleOrder =
     \<lparr>handlerKeys = [''a.b''], groupKeys = [''a.c'', ''a.b''],
      memberKeys = (\<lambda>p. if p = ''a.b'' then [''g0'', ''g1''] else if p = ''a.c'' then [''g1''] else [])\<rparr>"

definition otherBus :: "nat MemoryBus" where
  "otherBus = demoBus\<lparr>groups := [''a.b'' \<mapsto> [''g1'' \<mapsto> [Some 3, Some 4],
                                              ''g2'' \<mapsto> [Some 5, Some 6, Some 7]]],
                      groupIndex := [''a.b'' \<mapsto> [''g2'' \<mapsto> 2]]\<rparr>"

definition emptyOrder :: rangeOrder where
  "emptyOrder = \<lparr>handlerKeys = [], groupKeys = [], memberKeys = (\<lambda>p. [])\<rparr>"

definition starOrder :: rangeOrder where
  "starOrder = \<lparr>handlerKeys = [''a.*''], groupKeys = [], memberKeys = (\<lambda>p. [])\<rparr>"

definition earlyBus :: "nat MemoryBus" where
  "earlyBus =
     \<lparr>handlers = Map.empty,
      groups = [''a.b'' \<mapsto> [''g'' \<mapsto> [Some 1]]],
      groupIndex = [''a.b'' \<mapsto> [''g'' \<mapsto> 1]]\<rparr>"

definition lateBus :: "nat MemoryBus" where
  "lateBus =
     \<lparr>handlers = Map.empty,
      groups = [''a.b'' \<mapsto> [''g'' \<mapsto> [Some 1, Some 2]]],
      groupIndex = [''a.b'' \<mapsto> [''g'' \<mapsto> 1]]\<rparr>"

definition lateOrder :: rangeOrder where
  "lateOrder =
     \<lparr>handlerKeys = [], groupKeys = [''a.b''],
      memberKeys = (\<lambda>p. if p = ''a.b'' then [''g''] else [])\<rparr>"

section \<open>The dispatch loops\<close>

lemma smod_nonneg: "0 \<le> k \<Longrightarrow> 0 < l \<Longrightarrow> (k::int) smod l = k mod l"
  by (simp add: signed_modulo_int_def sgn_if)

lemma callAll_ok:
  "None \<notin> set hs \<Longrightarrow>
   callAll run p hs e tr = Inr (tr @ concat (map (callsOf run (Broadcast p) e) hs))"
proof (induction hs arbitrary: tr)
  case Nil
  show ?case by simp
next
  case (Cons h hs)
  then show ?case by (cases h) (simp_all add: invoke_def callsOf_def)
qed

lemma broadcastLoop_ok:
  "\<forall>p. None \<notin> set (handlersAt (handlers b) p) \<Longrightarrow>
   broadcastLoop run b subject e ps tr = Inr (tr @ broadcastCalls run b subject e ps)"
  by (induction ps arbitrary: tr) (simp_all add: broadcastCalls_def callAll_ok)

lemma dispatchGroup_empty: "dispatchGroup run p g [] e (b, tr) = Inr (b, tr)"
  by (simp add: dispatchGroup_def)

lemma dispatchGroup_ok:
  assumes "hs \<noteq> []" "None \<notin> set hs" "groupIndex b p = Some m"
    and "0 \<le> sint (cursor (groupIndex b) p g)"
  shows "dispatchGroup run p g hs e (b, tr) =
     Inr (b\<lparr>groupIndex := (groupIndex b)(p \<mapsto> m(g \<mapsto> cursor (groupIndex b) p g + 1))\<rparr>,
          tr @ callsOf run (Group p g) e (hs ! slot hs (cursor (groupIndex b) p g)))"
proof -
  let ?c = "cursor (groupIndex b) p g"
  from assms(1) have n: "0 < int (length hs)" by simp
  have idx: "sint ?c smod int (length hs) = sint ?c mod int (length hs)"
    by (rule smod_nonneg [OF assms(4) n])
  have guard: "\<not> (sint ?c smod int (length hs) < 0
      \<or> int (length hs) \<le> sint ?c smod int (length hs))"
    using pos_mod_sign [OF n, of "sint ?c"] pos_mod_bound [OF n, of "sint ?c"]
    unfolding idx by linarith
  have nat_idx: "nat (sint ?c smod int (length hs)) = slot hs ?c"
    using assms(4) unfolding idx by (simp add: slot_def nat_mod_distrib)
  from assms(1) have "slot hs ?c < length hs" by (simp add: slot_def)
  with assms(2) obtain f where f: "hs ! slot hs ?c = Some f"
    by (metis nth_mem not_Some_eq)
  show ?thesis
    unfolding dispatchGroup_def roundRobin_def Let_def prod.case
    by (simp only: if_not_P [OF guard] nat_idx f)
       (simp add: assms(1,3) invoke_def callsOf_def)
qed

lemma cursor_upd:
  "gi p = Some m \<Longrightarrow>
   cursor (gi(p \<mapsto> m(g \<mapsto> c))) p' g' = (if p' = p \<and> g' = g then c else cursor gi p' g')"
  by (simp add: cursor_def)

lemma memberCalls_cong:
  "\<forall>g\<in>set gs. cursor gi' p g = cursor gi p g \<Longrightarrow>
   memberCalls run p gm gi' e gs = memberCalls run p gm gi e gs"
  by (induction gs) (auto simp: memberCalls_def selectCall_def Let_def)

lemma memberLoop_ok:
  assumes "distinct gs" and "\<forall>g. None \<notin> set (handlersAt gm g)"
    and "\<forall>g\<in>set gs. 0 \<le> sint (cursor (groupIndex b) p g)" and "groupIndex b p \<noteq> None"
  shows "\<exists>b'. memberLoop run p gm e gs (b, tr)
            = Inr (b', tr @ memberCalls run p gm (groupIndex b) e gs)
          \<and> stepped b b' (\<lambda>p' g'. p' = p \<and> g' \<in> set gs \<and> handlersAt gm g' \<noteq> [])"
  using assms
proof (induction gs arbitrary: b tr)
  case Nil
  show ?case by (simp add: memberCalls_def stepped_def)
next
  case (Cons g gs)
  from Cons.prems have dist: "distinct gs" and fresh: "g \<notin> set gs" by simp_all
  show ?case
  proof (cases "handlersAt gm g = []")
    case True
    from Cons.prems have "\<forall>g\<in>set gs. 0 \<le> sint (cursor (groupIndex b) p g)" by simp
    from Cons.IH [OF dist Cons.prems(2) this Cons.prems(4), of tr]
    obtain b' where run: "memberLoop run p gm e gs (b, tr)
          = Inr (b', tr @ memberCalls run p gm (groupIndex b) e gs)"
      and st: "stepped b b' (\<lambda>p' g'. p' = p \<and> g' \<in> set gs \<and> handlersAt gm g' \<noteq> [])"
      by blast
    have same: "(\<lambda>p' g'. p' = p \<and> g' \<in> set (g # gs) \<and> handlersAt gm g' \<noteq> [])
        = (\<lambda>p' g'. p' = p \<and> g' \<in> set gs \<and> handlersAt gm g' \<noteq> [])"
      using True by auto
    from run st show ?thesis
      unfolding same
      by (simp add: True dispatchGroup_empty memberCalls_def selectCall_def Let_def)
  next
    case False
    from Cons.prems(4) obtain m where m: "groupIndex b p = Some m" by auto
    let ?c = "cursor (groupIndex b) p g"
    let ?b1 = "b\<lparr>groupIndex := (groupIndex b)(p \<mapsto> m(g \<mapsto> ?c + 1))\<rparr>"
    let ?tr1 = "tr @ callsOf run (Group p g) e (handlersAt gm g ! slot (handlersAt gm g) ?c)"
    from Cons.prems have c0: "0 \<le> sint ?c" by simp
    from Cons.prems(2) have nn: "None \<notin> set (handlersAt gm g)" by simp
    have step: "dispatchGroup run p g (handlersAt gm g) e (b, tr) = Inr (?b1, ?tr1)"
      by (rule dispatchGroup_ok [OF False nn m c0])
    have cur1: "cursor ((groupIndex b)(p \<mapsto> m(g \<mapsto> ?c + 1))) p' g'
        = (if p' = p \<and> g' = g then ?c + 1 else cursor (groupIndex b) p' g')" for p' g'
      using m by (simp add: cursor_upd)
    from Cons.prems(3) fresh have rng1: "\<forall>g'\<in>set gs. 0 \<le> sint (cursor (groupIndex ?b1) p g')"
      by (auto simp: cur1)
    have gi1: "groupIndex ?b1 p \<noteq> None" by simp
    from Cons.IH [OF dist Cons.prems(2) rng1 gi1, of ?tr1]
    obtain b' where run: "memberLoop run p gm e gs (?b1, ?tr1)
          = Inr (b', ?tr1 @ memberCalls run p gm (groupIndex ?b1) e gs)"
      and st: "stepped ?b1 b' (\<lambda>p' g'. p' = p \<and> g' \<in> set gs \<and> handlersAt gm g' \<noteq> [])"
      by blast
    from fresh have "\<forall>g'\<in>set gs. cursor (groupIndex ?b1) p g' = cursor (groupIndex b) p g'"
      by (auto simp: cur1)
    from memberCalls_cong [OF this]
    have calls: "memberCalls run p gm (groupIndex ?b1) e gs = memberCalls run p gm (groupIndex b) e gs" .
    have tr: "?tr1 @ memberCalls run p gm (groupIndex b) e gs
        = tr @ memberCalls run p gm (groupIndex b) e (g # gs)"
      using False by (simp add: memberCalls_def selectCall_def Let_def)
    have "stepped b b' (\<lambda>p' g'. p' = p \<and> g' \<in> set (g # gs) \<and> handlersAt gm g' \<noteq> [])"
      using st fresh False m
      by (auto simp: stepped_def cur1)
    with run step calls tr show ?thesis by simp
  qed
qed

lemma stepped_refl: "stepped b b (\<lambda>p g. False)"
  by (simp add: stepped_def)

lemma groupLoop_ok:
  assumes "distinct ps" and "\<forall>p\<in>set ps. distinct (inner p)"
    and "\<forall>p g. None \<notin> set (handlersAt (groupsAt gr p) g)"
    and "\<forall>p\<in>set ps. \<forall>g\<in>set (inner p). 0 \<le> sint (cursor (groupIndex b) p g)"
    and "\<forall>p\<in>set ps. groupIndex b p \<noteq> None"
  shows "\<exists>b'. groupLoop run gr subject e inner ps (b, tr)
            = Inr (b', tr @ concat (map (\<lambda>p. memberCalls run p (groupsAt gr p) (groupIndex b) e (inner p))
                                 (filter (\<lambda>p. matchSubject p subject) ps)))
          \<and> stepped b b' (\<lambda>p g. p \<in> set ps \<and> matchSubject p subject \<and> g \<in> set (inner p)
                              \<and> handlersAt (groupsAt gr p) g \<noteq> [])"
  using assms
proof (induction ps arbitrary: b tr)
  case Nil
  show ?case by (simp add: stepped_def)
next
  case (Cons p ps)
  from Cons.prems have dist: "distinct ps" and fresh: "p \<notin> set ps"
    and inner: "\<forall>p\<in>set ps. distinct (inner p)" by simp_all
  let ?D = "\<lambda>ps p g. p \<in> set ps \<and> matchSubject p subject \<and> g \<in> set (inner p)
                              \<and> handlersAt (groupsAt gr p) g \<noteq> []"
  show ?case
  proof (cases "matchSubject p subject")
    case False
    from Cons.prems have a4: "\<forall>p\<in>set ps. \<forall>g\<in>set (inner p). 0 \<le> sint (cursor (groupIndex b) p g)"
      and a5: "\<forall>p\<in>set ps. groupIndex b p \<noteq> None" by simp_all
    from Cons.IH [OF dist inner Cons.prems(3) a4 a5, of tr]
    obtain b' where run: "groupLoop run gr subject e inner ps (b, tr)
          = Inr (b', tr @ concat (map (\<lambda>p. memberCalls run p (groupsAt gr p) (groupIndex b) e (inner p))
                                 (filter (\<lambda>p. matchSubject p subject) ps)))"
      and st: "stepped b b' (?D ps)" by blast
    have "?D (p # ps) = ?D ps" using False by auto
    with run st False show ?thesis by simp
  next
    case True
    from Cons.prems have dp: "distinct (inner p)"
      and rp: "\<forall>g\<in>set (inner p). 0 \<le> sint (cursor (groupIndex b) p g)"
      and gp: "groupIndex b p \<noteq> None" by simp_all
    from Cons.prems(3) have nn: "\<forall>g. None \<notin> set (handlersAt (groupsAt gr p) g)" by simp
    let ?tr1 = "tr @ memberCalls run p (groupsAt gr p) (groupIndex b) e (inner p)"
    from memberLoop_ok [OF dp nn rp gp, of run e tr]
    obtain b1 where run1: "memberLoop run p (groupsAt gr p) e (inner p) (b, tr) = Inr (b1, ?tr1)"
      and st1: "stepped b b1 (\<lambda>p' g'. p' = p \<and> g' \<in> set (inner p)
                   \<and> handlersAt (groupsAt gr p) g' \<noteq> [])" by blast
    from st1 fresh have same: "\<forall>p'\<in>set ps. \<forall>g. cursor (groupIndex b1) p' g = cursor (groupIndex b) p' g"
      by (auto simp: stepped_def)
    with Cons.prems(4) have a4: "\<forall>p\<in>set ps. \<forall>g\<in>set (inner p). 0 \<le> sint (cursor (groupIndex b1) p g)"
      by simp
    from st1 Cons.prems(5) have a5: "\<forall>p\<in>set ps. groupIndex b1 p \<noteq> None"
      by (simp add: stepped_def)
    from Cons.IH [OF dist inner Cons.prems(3) a4 a5, of ?tr1]
    obtain b' where run: "groupLoop run gr subject e inner ps (b1, ?tr1)
          = Inr (b', ?tr1 @ concat (map (\<lambda>p. memberCalls run p (groupsAt gr p) (groupIndex b1) e (inner p))
                                 (filter (\<lambda>p. matchSubject p subject) ps)))"
      and st: "stepped b1 b' (?D ps)" by blast
    have calls: "map (\<lambda>p. memberCalls run p (groupsAt gr p) (groupIndex b1) e (inner p))
                     (filter (\<lambda>p. matchSubject p subject) ps)
               = map (\<lambda>p. memberCalls run p (groupsAt gr p) (groupIndex b) e (inner p))
                     (filter (\<lambda>p. matchSubject p subject) ps)"
      using same by (intro map_cong refl memberCalls_cong) simp
    have "stepped b b' (?D (p # ps))"
      using st st1 fresh True by (auto simp: stepped_def)
    with run run1 calls True show ?thesis by simp
  qed
qed

lemma Publish_ok:
  assumes wf: "wellFormed b" and rng: "cursorsBelow b (2 ^ 63)" and ord: "validOrder b ord"
    and subj: "subject \<noteq> []"
  shows "\<exists>b'. Publish ord run b subject (Some e)
            = Inr (None, b', broadcastCalls run b subject e (handlerKeys ord)
                              @ groupCalls run b subject e (memberKeys ord) (groupKeys ord))
          \<and> stepped b b' (dispatched b subject)"
proof -
  let ?tr = "broadcastCalls run b subject e (handlerKeys ord)"
  from wf have bc: "broadcastLoop run b subject e (handlerKeys ord) [] = Inr ([] @ ?tr)"
    by (intro broadcastLoop_ok) (simp add: wellFormed_def)
  from ord have d1: "distinct (groupKeys ord)" and keys: "set (groupKeys ord) = dom (groups b)"
    and mem: "\<And>p gm. groups b p = Some gm \<Longrightarrow> distinct (memberKeys ord p) \<and> set (memberKeys ord p) = dom gm"
    by (auto simp: validOrder_def rangeOf_def)
  from keys mem have d2: "\<forall>p\<in>set (groupKeys ord). distinct (memberKeys ord p)" by auto
  from wf have nn: "\<forall>p g. None \<notin> set (handlersAt (groupsAt (groups b) p) g)"
    by (auto simp: wellFormed_def groupsAt_def handlersAt_def split: option.splits)
  from rng have r: "\<forall>p\<in>set (groupKeys ord). \<forall>g\<in>set (memberKeys ord p).
      0 \<le> sint (cursor (groupIndex b) p g)"
    by (simp add: cursorsBelow_def)
  from wf keys have gi: "\<forall>p\<in>set (groupKeys ord). groupIndex b p \<noteq> None"
    by (auto simp: wellFormed_def)
  from groupLoop_ok [OF d1 d2 nn r gi, of run subject e ?tr]
  obtain b' where run: "groupLoop run (groups b) subject e (memberKeys ord) (groupKeys ord) (b, ?tr)
       = Inr (b', ?tr @ groupCalls run b subject e (memberKeys ord) (groupKeys ord))"
    and st: "stepped b b' (\<lambda>p g. p \<in> set (groupKeys ord) \<and> matchSubject p subject
                \<and> g \<in> set (memberKeys ord p) \<and> handlersAt (groupsAt (groups b) p) g \<noteq> [])"
    unfolding groupCalls_def by blast
  have "(\<lambda>p g. p \<in> set (groupKeys ord) \<and> matchSubject p subject
                \<and> g \<in> set (memberKeys ord p) \<and> handlersAt (groupsAt (groups b) p) g \<noteq> [])
      = dispatched b subject"
  proof (intro ext iffI)
    fix p g
    assume "dispatched b subject p g"
    then have m: "matchSubject p subject" and ne: "handlersAt (groupsAt (groups b) p) g \<noteq> []"
      by (simp_all add: dispatched_def)
    from ne obtain gm hs where gm: "groups b p = Some gm" "gm g = Some hs"
      by (auto simp: groupsAt_def handlersAt_def split: option.splits)
    with keys mem [OF gm(1)] have "p \<in> set (groupKeys ord)" "g \<in> set (memberKeys ord p)"
      by auto
    with m ne show "p \<in> set (groupKeys ord) \<and> matchSubject p subject
                \<and> g \<in> set (memberKeys ord p) \<and> handlersAt (groupsAt (groups b) p) g \<noteq> []"
      by simp
  qed (simp add: dispatched_def)
  with st have "stepped b b' (dispatched b subject)" by simp
  with bc run subj show ?thesis
    by (simp add: Publish_def)
qed

lemma filter_callsOf:
  "filter (\<lambda>c. via c = src') (callsOf run src e h) = (if src = src' then callsOf run src e h else [])"
  by (cases h) (simp_all add: callsOf_def)

lemma filter_handler_calls:
  "filter (\<lambda>c. via c = src') (concat (map (callsOf run src e) hs))
     = (if src = src' then concat (map (callsOf run src e) hs) else [])"
  by (induction hs) (simp_all add: filter_callsOf)

lemma filter_broadcastCalls:
  "distinct ps \<Longrightarrow>
   filter (\<lambda>c. via c = Broadcast p) (broadcastCalls run b subject e ps)
     = (if p \<in> set ps \<and> matchSubject p subject
        then concat (map (callsOf run (Broadcast p) e) (handlersAt (handlers b) p)) else [])"
  by (induction ps) (auto simp: broadcastCalls_def filter_handler_calls)

lemma filter_broadcastCalls_group:
  "filter (\<lambda>c. via c = Group p g) (broadcastCalls run b subject e ps) = []"
  by (induction ps) (auto simp: broadcastCalls_def filter_handler_calls)

lemma filter_selectCall:
  "filter (\<lambda>c. via c = src') (selectCall run p gm gi e g)
     = (if src' = Group p g then selectCall run p gm gi e g else [])"
  by (auto simp: selectCall_def Let_def filter_callsOf)

lemma filter_memberCalls:
  "distinct gs \<Longrightarrow>
   filter (\<lambda>c. via c = Group p' g) (memberCalls run p gm gi e gs)
     = (if p' = p \<and> g \<in> set gs then selectCall run p gm gi e g else [])"
  by (induction gs) (auto simp: memberCalls_def filter_selectCall)

lemma filter_memberCalls_broadcast:
  "filter (\<lambda>c. via c = Broadcast p') (memberCalls run p gm gi e gs) = []"
  by (induction gs) (auto simp: memberCalls_def filter_selectCall)

lemma filter_groupCalls:
  "distinct ps \<Longrightarrow> \<forall>p\<in>set ps. distinct (inner p) \<Longrightarrow>
   filter (\<lambda>c. via c = Group p g) (groupCalls run b subject e inner ps)
     = (if p \<in> set ps \<and> matchSubject p subject \<and> g \<in> set (inner p)
        then selectCall run p (groupsAt (groups b) p) (groupIndex b) e g else [])"
  by (induction ps) (auto simp: groupCalls_def filter_memberCalls)

lemma filter_groupCalls_broadcast:
  "filter (\<lambda>c. via c = Broadcast p) (groupCalls run b subject e inner ps) = []"
  by (induction ps) (auto simp: groupCalls_def filter_memberCalls_broadcast)

lemma selectCall_empty: "handlersAt gm g = [] \<Longrightarrow> selectCall run p gm gi e g = []"
  by (simp add: selectCall_def)

text \<open>
  The calls of a publish, entry by entry: the broadcast handlers of a matching pattern in
  the order of their slice, and for a group of a matching pattern the one handler its
  cursor selects.
\<close>

lemma Publish_calls:
  assumes wf: "wellFormed b" and rng: "cursorsBelow b (2 ^ 63)" and ord: "validOrder b ord"
    and subj: "subject \<noteq> []"
  shows "\<exists>b' tr. Publish ord run b subject (Some e) = Inr (None, b', tr)
          \<and> stepped b b' (dispatched b subject)
          \<and> (\<forall>p. filter (\<lambda>c. via c = Broadcast p) tr
                = (if matchSubject p subject
                   then concat (map (callsOf run (Broadcast p) e) (handlersAt (handlers b) p))
                   else []))
          \<and> (\<forall>p g. filter (\<lambda>c. via c = Group p g) tr
                = (if matchSubject p subject
                   then selectCall run p (groupsAt (groups b) p) (groupIndex b) e g else []))"
proof -
  from Publish_ok [OF wf rng ord subj, of run e]
  obtain b' where run: "Publish ord run b subject (Some e)
            = Inr (None, b', broadcastCalls run b subject e (handlerKeys ord)
                              @ groupCalls run b subject e (memberKeys ord) (groupKeys ord))"
    and st: "stepped b b' (dispatched b subject)" by blast
  from ord have d0: "distinct (handlerKeys ord)" and k0: "set (handlerKeys ord) = dom (handlers b)"
    and d1: "distinct (groupKeys ord)" and k1: "set (groupKeys ord) = dom (groups b)"
    and mem: "\<And>p gm. groups b p = Some gm \<Longrightarrow> distinct (memberKeys ord p) \<and> set (memberKeys ord p) = dom gm"
    by (auto simp: validOrder_def rangeOf_def)
  from k1 mem have d2: "\<forall>p\<in>set (groupKeys ord). distinct (memberKeys ord p)" by auto
  have bc: "filter (\<lambda>c. via c = Broadcast p)
        (broadcastCalls run b subject e (handlerKeys ord)
           @ groupCalls run b subject e (memberKeys ord) (groupKeys ord))
      = (if matchSubject p subject
         then concat (map (callsOf run (Broadcast p) e) (handlersAt (handlers b) p)) else [])" for p
  proof (cases "p \<in> set (handlerKeys ord)")
    case True
    then show ?thesis
      by (simp add: filter_broadcastCalls [OF d0] filter_groupCalls_broadcast)
  next
    case False
    with k0 have "handlersAt (handlers b) p = []"
      by (auto simp: handlersAt_def split: option.splits)
    with False show ?thesis
      by (simp add: filter_broadcastCalls [OF d0] filter_groupCalls_broadcast)
  qed
  have gc: "filter (\<lambda>c. via c = Group p g)
        (broadcastCalls run b subject e (handlerKeys ord)
           @ groupCalls run b subject e (memberKeys ord) (groupKeys ord))
      = (if matchSubject p subject
         then selectCall run p (groupsAt (groups b) p) (groupIndex b) e g else [])" for p g
  proof (cases "p \<in> set (groupKeys ord) \<and> g \<in> set (memberKeys ord p)")
    case True
    then show ?thesis
      by (simp add: filter_broadcastCalls_group filter_groupCalls [OF d1 d2])
  next
    case False
    have "handlersAt (groupsAt (groups b) p) g = []"
    proof (cases "groups b p")
      case None
      then show ?thesis by (simp add: groupsAt_def handlersAt_def)
    next
      case (Some gm)
      with k1 have "p \<in> set (groupKeys ord)" by auto
      with False mem [OF Some] have "gm g = None" by auto
      with Some show ?thesis by (simp add: groupsAt_def handlersAt_def)
    qed
    then have "selectCall run p (groupsAt (groups b) p) (groupIndex b) e g = []"
      by (rule selectCall_empty)
    then show ?thesis
      by (simp add: filter_broadcastCalls_group filter_groupCalls [OF d1 d2])
  qed
  from run st bc gc show ?thesis by blast
qed

section \<open>What a publish keeps, and consecutive publishes\<close>

lemma sint_succ:
  fixes c :: "64 word"
  assumes "0 \<le> sint c" and "sint c < 2 ^ 63 - 1"
  shows "sint (c + 1) = sint c + 1"
proof -
  have "sint (c + 1) = signed_take_bit (LENGTH(64) - 1) (sint c + sint (1 :: 64 word))"
    by (rule sint_word_add)
  also have "\<dots> = signed_take_bit 63 (sint c + 1)" by simp
  also have "\<dots> = sint c + 1"
    using assms by (intro signed_take_bit_int_eq_self) simp_all
  finally show ?thesis .
qed

lemma stepped_wellFormed: "stepped b b' D \<Longrightarrow> wellFormed b \<Longrightarrow> wellFormed b'"
  by (simp add: stepped_def wellFormed_def)

lemma stepped_validOrder: "stepped b b' D \<Longrightarrow> validOrder b ord \<Longrightarrow> validOrder b' ord"
  by (simp add: stepped_def validOrder_def)

lemma stepped_cursorsBelow:
  assumes "stepped b b' D" and "cursorsBelow b k" and "k \<le> 2 ^ 63 - 1"
  shows "cursorsBelow b' (k + 1)"
  unfolding cursorsBelow_def
proof (intro allI)
  fix p g
  let ?c = "cursor (groupIndex b) p g"
  from assms(2) have c: "0 \<le> sint ?c" "sint ?c < k" by (simp_all add: cursorsBelow_def)
  from assms(1) have c': "cursor (groupIndex b') p g = ?c + (if D p g then 1 else 0)"
    by (simp add: stepped_def)
  show "0 \<le> sint (cursor (groupIndex b') p g) \<and> sint (cursor (groupIndex b') p g) < k + 1"
  proof (cases "D p g")
    case True
    from c assms(3) have "sint (?c + 1) = sint ?c + 1" by (intro sint_succ) simp_all
    with c c' True show ?thesis by simp
  next
    case False
    with c c' show ?thesis by simp
  qed
qed

lemma cursorsBelow_mono: "cursorsBelow b k \<Longrightarrow> k \<le> k' \<Longrightarrow> cursorsBelow b k'"
  unfolding cursorsBelow_def by (meson less_le_trans)

lemma publishAll_rotation:
  assumes "wellFormed b" and "cursorsBelow b k" and "k + int (length oes) \<le> 2 ^ 63"
    and "\<forall>oe\<in>set oes. validOrder b (fst oe)"
    and "subject \<noteq> []" and "matchSubject p subject"
    and "handlersAt (groupsAt (groups b) p) g = hs" and "hs \<noteq> []"
  shows "\<exists>b' tr. publishAll run b subject oes = Inr (replicate (length oes) None, b', tr)
    \<and> filter (\<lambda>c. via c = Group p g) tr
        = rotation run (Group p g) hs (nat (sint (cursor (groupIndex b) p g))) (map snd oes)
    \<and> cursor (groupIndex b') p g = cursor (groupIndex b) p g + of_nat (length oes)"
  using assms
proof (induction oes arbitrary: b k)
  case Nil
  show ?case by simp
next
  case (Cons oe oes)
  obtain ord e where oe: "oe = (ord, e)" by (cases oe)
  let ?c = "cursor (groupIndex b) p g"
  from Cons.prems(3) have k: "k \<le> 2 ^ 63 - 1" by simp
  from k have "k \<le> 2 ^ 63" by simp
  with Cons.prems(2) have rng: "cursorsBelow b (2 ^ 63)"
    by (rule cursorsBelow_mono)
  from Cons.prems(4) oe have ord: "validOrder b ord" by simp
  from Publish_calls [OF Cons.prems(1) rng ord Cons.prems(5), of run e]
  obtain b1 tr1 where run1: "Publish ord run b subject (Some e) = Inr (None, b1, tr1)"
    and st: "stepped b b1 (dispatched b subject)"
    and gc: "filter (\<lambda>c. via c = Group p g) tr1
                = selectCall run p (groupsAt (groups b) p) (groupIndex b) e g"
    using Cons.prems(6) by auto
  from Cons.prems(6,7,8) have disp: "dispatched b subject p g"
    by (simp add: dispatched_def)
  with st have c1: "cursor (groupIndex b1) p g = ?c + 1"
    by (simp add: stepped_def)
  from Cons.prems(2) have c0: "0 \<le> sint ?c" "sint ?c < k" by (simp_all add: cursorsBelow_def)
  with k have s1: "sint (?c + 1) = sint ?c + 1" by (intro sint_succ) simp_all
  with c0 have n1: "nat (sint (?c + 1)) = Suc (nat (sint ?c))" by simp
  have wf1: "wellFormed b1" by (rule stepped_wellFormed [OF st Cons.prems(1)])
  have rng1: "cursorsBelow b1 (k + 1)" by (rule stepped_cursorsBelow [OF st Cons.prems(2) k])
  from Cons.prems(3) have k1: "k + 1 + int (length oes) \<le> 2 ^ 63" by simp
  from Cons.prems(4) st have ords1: "\<forall>oe\<in>set oes. validOrder b1 (fst oe)"
    by (auto intro: stepped_validOrder)
  from st Cons.prems(7) have hs1: "handlersAt (groupsAt (groups b1) p) g = hs"
    by (simp add: stepped_def)
  from Cons.IH [OF wf1 rng1 k1 ords1 Cons.prems(5,6) hs1 Cons.prems(8)]
  obtain b' tr where run: "publishAll run b1 subject oes = Inr (replicate (length oes) None, b', tr)"
    and rot: "filter (\<lambda>c. via c = Group p g) tr
        = rotation run (Group p g) hs (nat (sint (cursor (groupIndex b1) p g))) (map snd oes)"
    and cur: "cursor (groupIndex b') p g = cursor (groupIndex b1) p g + of_nat (length oes)"
    by blast
  have sel: "selectCall run p (groupsAt (groups b) p) (groupIndex b) e g
      = callsOf run (Group p g) e (hs ! (nat (sint ?c) mod length hs))"
    using Cons.prems(7,8) by (simp add: selectCall_def slot_def)
  from run1 run have "publishAll run b subject (oe # oes)
      = Inr (replicate (length (oe # oes)) None, b', tr1 @ tr)"
    by (simp add: oe)
  moreover have "filter (\<lambda>c. via c = Group p g) (tr1 @ tr)
      = rotation run (Group p g) hs (nat (sint ?c)) (map snd (oe # oes))"
    by (simp add: gc sel rot c1 n1 oe)
  moreover have "cursor (groupIndex b') p g = ?c + of_nat (length (oe # oes))"
    by (simp add: cur c1)
  ultimately show ?case by blast
qed

lemma mod_two_parity: "n mod Suc (Suc 0) = (if even n then 0 else 1)"
  by (simp add: numeral_2_eq_2 [symmetric] mod2_eq_if)

lemma upt_Suc_shift: "[0..<Suc k] = 0 # map Suc [0..<k]"
  by (simp add: upt_conv_Cons map_Suc_upt del: upt_Suc)

lemma rotation_two_callee:
  "map callee (rotation run src [Some h1, Some h2] n es)
     = map (\<lambda>i. if even (n + i) then h1 else h2) [0..<length es]"
proof (induction es arbitrary: n)
  case Nil
  show ?case by simp
next
  case (Cons e es)
  have first: "map callee (callsOf run src e ([Some h1, Some h2] ! (n mod length [Some h1, Some h2])))
      = [if even n then h1 else h2]"
    by (simp add: mod_two_parity callsOf_def)
  have "map (\<lambda>i. if even (n + i) then h1 else h2) [0..<length (e # es)]
      = (if even n then h1 else h2) # map (\<lambda>i. if even (Suc n + i) then h1 else h2) [0..<length es]"
    unfolding length_Cons upt_Suc_shift by (simp add: comp_def)
  also have "\<dots> = map callee (rotation run src [Some h1, Some h2] n (e # es))"
    unfolding rotation.simps map_append first Cons.IH by simp
  finally show ?case by (rule sym)
qed

lemma rotation_arg:
  "None \<notin> set hs \<Longrightarrow> hs \<noteq> [] \<Longrightarrow> map arg (rotation run src hs n es) = es"
proof (induction es arbitrary: n)
  case Nil
  show ?case by simp
next
  case (Cons e es)
  from Cons.prems have "n mod length hs < length hs" by simp
  with Cons.prems(1) obtain f where "hs ! (n mod length hs) = Some f"
    by (metis nth_mem not_Some_eq)
  with Cons show ?case by (simp add: callsOf_def)
qed

lemma count_shifted:
  "length (filter (\<lambda>i. even (n + i)) [0..<k]) = (if even n then (k + 1) div 2 else k div 2)
   \<and> length (filter (\<lambda>i. odd (n + i)) [0..<k]) = (if even n then k div 2 else (k + 1) div 2)"
  by (induction k) auto

lemma count_callee:
  "length (filter (\<lambda>c. P c \<and> callee c = h) tr) = length (filter (\<lambda>x. x = h) (map callee (filter P tr)))"
  by (induction tr) auto

lemma SubscribeWithHandlerGroup_appends:
  assumes "p \<noteq> []" and "g \<noteq> []"
  shows "handlersAt (groupsAt (groups (snd (SubscribeWithHandlerGroup b p g (Some h)))) p) g
           = handlersAt (groupsAt (groups b) p) g @ [Some h]"
    and "cursor (groupIndex (snd (SubscribeWithHandlerGroup b p g (Some h)))) p' g'
           = cursor (groupIndex b) p' g'"
  using assms
  by (auto simp: SubscribeWithHandlerGroup_def Let_def groupsAt_def handlersAt_def cursor_def
      split: option.splits)

section \<open>The example buses are well formed\<close>

lemma demoBus_built:
  "demoBus = snd (SubscribeWithHandlerGroup (snd (SubscribeWithHandlerGroup
      (snd (SubscribeWithHandlerGroup (snd (Subscribe (snd (Subscribe NewMemoryBus
        ''a.b'' (Some 1))) ''a.b'' (Some 2))) ''a.b'' ''g1'' (Some 3)))
          ''a.b'' ''g1'' (Some 4))) ''a.b'' ''g2'' (Some 5))"
  by (simp add: demoBus_def NewMemoryBus_def Subscribe_def SubscribeWithHandlerGroup_def
      handlersAt_def groupsAt_def Let_def fun_upd_twist)

lemma demo_wf: "wellFormed demoBus"
  by (auto simp: wellFormed_def demoBus_def handlersAt_def split: if_splits)

lemma demo_rng: "cursorsBelow demoBus (2 ^ 63)"
  by (simp add: cursorsBelow_def demoBus_def cursor_def)

lemma demo_ord: "validOrder demoBus demoOrder"
  by (auto simp: validOrder_def rangeOf_def demoBus_def demoOrder_def split: if_splits)

lemma idle_wf: "wellFormed idleBus"
  by (auto simp: wellFormed_def idleBus_def demoBus_def handlersAt_def split: if_splits)

lemma idle_rng: "cursorsBelow idleBus (2 ^ 63)"
  by (simp add: cursorsBelow_def idleBus_def cursor_def)

lemma idle_ord: "validOrder idleBus idleOrder"
  by (auto simp: validOrder_def rangeOf_def idleBus_def demoBus_def idleOrder_def split: if_splits)

lemma broadcastLoop_nomatch:
  "\<forall>p\<in>set ps. \<not> matchSubject p subject \<Longrightarrow> broadcastLoop run b subject e ps tr = Inr tr"
  by (induction ps) simp_all

lemma groupLoop_nomatch:
  "\<forall>p\<in>set ps. \<not> matchSubject p subject \<Longrightarrow> groupLoop run gr subject e inner ps st = Inr st"
  by (induction ps) simp_all

lemma selectCall_single:
  assumes "None \<notin> set (handlersAt gm g)" and "handlersAt gm g \<noteq> []"
  shows "\<exists>f. handlersAt gm g ! slot (handlersAt gm g) (cursor gi p g) = Some f
    \<and> selectCall run p gm gi e g = [\<lparr>callee = f, arg = e, via = Group p g, returned = run f e\<rparr>]"
proof -
  from assms(2) have "slot (handlersAt gm g) (cursor gi p g) < length (handlersAt gm g)"
    by (simp add: slot_def)
  with assms(1) obtain f where "handlersAt gm g ! slot (handlersAt gm g) (cursor gi p g) = Some f"
    by (metis nth_mem not_Some_eq)
  with assms(2) show ?thesis
    by (simp add: selectCall_def callsOf_def)
qed

lemma wellFormed_groups: "wellFormed b \<Longrightarrow> None \<notin> set (handlersAt (groupsAt (groups b) p) g)"
  by (auto simp: wellFormed_def groupsAt_def handlersAt_def split: option.splits)

lemma other_wf: "wellFormed otherBus"
  by (auto simp: wellFormed_def otherBus_def demoBus_def handlersAt_def split: if_splits)

lemma other_rng: "cursorsBelow otherBus (2 ^ 63)"
  by (simp add: cursorsBelow_def otherBus_def cursor_def)

lemma other_ord: "validOrder otherBus demoOrder"
  by (auto simp: validOrder_def rangeOf_def otherBus_def demoBus_def demoOrder_def split: if_splits)

lemma demo_rng1: "cursorsBelow demoBus 1"
  by (simp add: cursorsBelow_def demoBus_def cursor_def)

lemma demo_match: "matchSubject ''a.b'' ''a.b''"
  by (simp add: matchSubject_def Contains_star_def)

text \<open>
  \<open>earlyBus\<close> and \<open>lateBus\<close> are what the bus is after a registration, a publish and a second
  registration; three publishes on \<open>lateBus\<close> are evaluated.
\<close>

lemmas publish_eval = Publish_def matchSubject_def Contains_star_def handlersAt_def groupsAt_def
  invoke_def dispatchGroup_def roundRobin_def cursor_def Let_def signed_modulo_int_def

lemma earlyBus_built:
  "Publish lateOrder quietRun (snd (SubscribeWithHandlerGroup NewMemoryBus ''a.b'' ''g'' (Some 1)))
      ''a.b'' (Some 9)
     = Inr (None, earlyBus,
         [\<lparr>callee = 1, arg = 9, via = Group ''a.b'' ''g'', returned = None\<rparr>])"
  by (simp add: publish_eval SubscribeWithHandlerGroup_def NewMemoryBus_def earlyBus_def
      lateOrder_def quietRun_def)

lemma lateBus_built:
  "SubscribeWithHandlerGroup earlyBus ''a.b'' ''g'' (Some 2) = (None, lateBus)"
  by (simp add: SubscribeWithHandlerGroup_def earlyBus_def lateBus_def handlersAt_def groupsAt_def)

lemma late_wf: "wellFormed lateBus"
  by (auto simp: wellFormed_def lateBus_def handlersAt_def split: if_splits)

lemma late_rng: "cursorsBelow lateBus 2"
  by (simp add: cursorsBelow_def lateBus_def cursor_def)

lemma late_ord: "validOrder lateBus lateOrder"
  by (auto simp: validOrder_def rangeOf_def lateBus_def lateOrder_def split: if_splits)

lemma late_publishes:
  "publishAll quietRun lateBus ''a.b'' [(lateOrder, 10), (lateOrder, 11), (lateOrder, 12)]
     = Inr ([None, None, None], lateBus\<lparr>groupIndex := [''a.b'' \<mapsto> [''g'' \<mapsto> 4]]\<rparr>,
         [\<lparr>callee = 2, arg = 10, via = Group ''a.b'' ''g'', returned = None\<rparr>,
          \<lparr>callee = 1, arg = 11, via = Group ''a.b'' ''g'', returned = None\<rparr>,
          \<lparr>callee = 2, arg = 12, via = Group ''a.b'' ''g'', returned = None\<rparr>])"
  by (simp add: publish_eval lateBus_def lateOrder_def quietRun_def)

section \<open>What the handlers return does not reach the bus\<close>

text \<open>The bus after a loop, or its panic, does not depend on what the handlers return.\<close>

lemma invoke_state:
  "map_sum (\<lambda>p. p) (\<lambda>x. ()) (invoke run src h e tr) = map_sum (\<lambda>p. p) (\<lambda>x. ()) (invoke run' src h e tr')"
  by (cases h) (simp_all add: invoke_def)

lemma callAll_state:
  "map_sum (\<lambda>p. p) (\<lambda>x. ()) (callAll run p hs e tr) = map_sum (\<lambda>p. p) (\<lambda>x. ()) (callAll run' p hs e tr')"
proof (induction hs arbitrary: tr tr')
  case Nil
  show ?case by simp
next
  case (Cons h hs)
  show ?case
  proof (cases h)
    case None
    then show ?thesis by (simp add: invoke_def)
  next
    case (Some f)
    then show ?thesis by (simp add: invoke_def Cons.IH)
  qed
qed

lemma broadcastLoop_state:
  "map_sum (\<lambda>p. p) (\<lambda>x. ()) (broadcastLoop run b subject e ps tr)
     = map_sum (\<lambda>p. p) (\<lambda>x. ()) (broadcastLoop run' b subject e ps tr')"
proof (induction ps arbitrary: tr tr')
  case Nil
  show ?case by simp
next
  case (Cons p ps)
  show ?case
  proof (cases "matchSubject p subject")
    case False
    then show ?thesis by (simp add: Cons.IH)
  next
    case True
    from callAll_state [of run p "handlersAt (handlers b) p" e tr run' tr']
    show ?thesis
      using True Cons.IH by (auto split: sum.splits)
  qed
qed

lemma dispatchGroup_state:
  "map_sum (\<lambda>p. p) fst (dispatchGroup run p g hs e (b, tr))
     = map_sum (\<lambda>p. p) fst (dispatchGroup run' p g hs e (b, tr'))"
  by (auto simp: dispatchGroup_def roundRobin_def Let_def invoke_def split: option.splits)

lemma memberLoop_state:
  "map_sum (\<lambda>p. p) fst (memberLoop run p gm e gs (b, tr))
     = map_sum (\<lambda>p. p) fst (memberLoop run' p gm e gs (b, tr'))"
proof (induction gs arbitrary: b tr tr')
  case Nil
  show ?case by simp
next
  case (Cons g gs)
  from dispatchGroup_state [of run p g "handlersAt gm g" e b tr run' tr']
  show ?case
    using Cons.IH by (auto split: sum.splits)
qed

lemma groupLoop_state:
  "map_sum (\<lambda>p. p) fst (groupLoop run gr subject e inner ps (b, tr))
     = map_sum (\<lambda>p. p) fst (groupLoop run' gr subject e inner ps (b, tr'))"
proof (induction ps arbitrary: b tr tr')
  case Nil
  show ?case by simp
next
  case (Cons p ps)
  show ?case
  proof (cases "matchSubject p subject")
    case False
    then show ?thesis by (simp add: Cons.IH)
  next
    case True
    from memberLoop_state [of run p "groupsAt gr p" e "inner p" b tr run' tr']
    show ?thesis
      using True Cons.IH by (auto split: sum.splits)
  qed
qed

lemma Publish_state:
  "map_sum (\<lambda>p. p) (\<lambda>r. (fst r, fst (snd r))) (Publish ord run b subject event)
     = map_sum (\<lambda>p. p) (\<lambda>r. (fst r, fst (snd r))) (Publish ord run' b subject event)"
proof (cases "subject = [] \<or> event = None")
  case True
  then show ?thesis by (auto simp: Publish_def)
next
  case False
  then obtain e where e: "event = Some e" and s: "subject \<noteq> []" by auto
  from broadcastLoop_state [of run b subject e "handlerKeys ord" "[]" run' "[]"]
  consider p where "broadcastLoop run b subject e (handlerKeys ord) [] = Inl p"
      "broadcastLoop run' b subject e (handlerKeys ord) [] = Inl p"
    | tr tr' where "broadcastLoop run b subject e (handlerKeys ord) [] = Inr tr"
      "broadcastLoop run' b subject e (handlerKeys ord) [] = Inr tr'"
    by (cases "broadcastLoop run b subject e (handlerKeys ord) []";
        cases "broadcastLoop run' b subject e (handlerKeys ord) []") auto
  then show ?thesis
  proof cases
    case 1
    then show ?thesis by (simp add: Publish_def e s)
  next
    case 2
    from groupLoop_state [of run "groups b" subject e "memberKeys ord" "groupKeys ord" b tr run' tr']
    show ?thesis
      using 2 by (auto simp: Publish_def e s split: sum.splits)
  qed
qed

lemma erase_callsOf: "map erase (callsOf run src e h) = map erase (callsOf run' src e h)"
  by (cases h) (simp_all add: callsOf_def erase_def)

lemma erase_handler_calls:
  "map erase (concat (map (callsOf run src e) hs)) = map erase (concat (map (callsOf run' src e) hs))"
  by (induction hs) (simp_all add: erase_callsOf [of run _ _ _ run'])

lemma erase_broadcastCalls:
  "map erase (broadcastCalls run b subject e ps) = map erase (broadcastCalls run' b subject e ps)"
  by (induction ps)
     (simp_all add: broadcastCalls_def erase_handler_calls [of run _ _ _ run'])

lemma erase_memberCalls:
  "map erase (memberCalls run p gm gi e gs) = map erase (memberCalls run' p gm gi e gs)"
  by (induction gs)
     (simp_all add: memberCalls_def selectCall_def Let_def erase_callsOf [of run _ _ _ run'])

lemma erase_groupCalls:
  "map erase (groupCalls run b subject e inner ps) = map erase (groupCalls run' b subject e inner ps)"
  by (induction ps)
     (simp_all add: groupCalls_def erase_memberCalls [of run _ _ _ _ _ run'])

lemma returned_callsOf: "c \<in> set (callsOf run src e h) \<Longrightarrow> returned c = run (callee c) (arg c)"
  by (cases h) (simp_all add: callsOf_def)

lemma returned_broadcastCalls:
  "c \<in> set (broadcastCalls run b subject e ps) \<Longrightarrow> returned c = run (callee c) (arg c)"
  by (auto simp: broadcastCalls_def dest: returned_callsOf)

lemma returned_groupCalls:
  "c \<in> set (groupCalls run b subject e inner ps) \<Longrightarrow> returned c = run (callee c) (arg c)"
  by (auto simp: groupCalls_def memberCalls_def selectCall_def Let_def dest: returned_callsOf
      split: if_splits)

lemma callee_handler_calls:
  "None \<notin> set hs \<Longrightarrow> map (\<lambda>c. Some (callee c)) (concat (map (callsOf run src e) hs)) = hs"
proof (induction hs)
  case Nil
  show ?case by simp
next
  case (Cons h hs)
  then show ?case by (cases h) (simp_all add: callsOf_def)
qed

lemma broadcastCalls_append:
  "broadcastCalls run b subject e (xs @ ys)
     = broadcastCalls run b subject e xs @ broadcastCalls run b subject e ys"
  by (simp add: broadcastCalls_def)

lemma Subscribe_appends:
  assumes "pattern \<noteq> []"
  shows "Subscribe b pattern (Some h)
     = (None, b\<lparr>handlers := (handlers b)(pattern \<mapsto> handlersAt (handlers b) pattern @ [Some h])\<rparr>)"
    and "handlersAt (handlers (snd (Subscribe b pattern (Some h)))) p
     = (if p = pattern then handlersAt (handlers b) pattern @ [Some h]
        else handlersAt (handlers b) p)"
  using assms by (simp_all add: Subscribe_def handlersAt_def)

lemma star_match: "matchSubject ''a.*'' ''a.b''"
  by code_simp

lemma distinct_singleton:
  assumes "distinct xs" and "set xs = {a}"
  shows "xs = [a]"
proof (cases xs)
  case Nil
  with assms show ?thesis by simp
next
  case (Cons x ys)
  with assms have x: "x = a" and "set ys \<subseteq> {a}" "a \<notin> set ys" by auto
  then have "ys = []" by (cases ys) auto
  with Cons x show ?thesis by simp
qed

lemma demo_publish:
  "Publish demoOrder demoRun demoBus ''a.b'' (Some 9)
     = Inr (None, demoBus\<lparr>groupIndex := [''a.b'' \<mapsto> [''g2'' \<mapsto> 1, ''g1'' \<mapsto> 1]]\<rparr>,
         [\<lparr>callee = 1, arg = 9, via = Broadcast ''a.b'', returned = Some ''boom''\<rparr>,
          \<lparr>callee = 2, arg = 9, via = Broadcast ''a.b'', returned = None\<rparr>,
          \<lparr>callee = 5, arg = 9, via = Group ''a.b'' ''g2'', returned = Some ''boom''\<rparr>,
          \<lparr>callee = 3, arg = 9, via = Group ''a.b'' ''g1'', returned = None\<rparr>])"
  by (simp add: Publish_def demoOrder_def demoBus_def demoRun_def matchSubject_def
      Contains_star_def handlersAt_def groupsAt_def invoke_def dispatchGroup_def roundRobin_def
      cursor_def Let_def signed_modulo_int_def)

section \<open>Patterns as path globs\<close>

lemma ReplaceAll_star_id: "ReplaceAll_star s ''*'' = s"
  by (induction s) (simp_all add: ReplaceAll_star_def)

text \<open>Whether a chunk is well formed does not depend on the name it is matched against.\<close>

lemma parseRanges_syntax:
  "map_sum (\<lambda>e. e) snd (parseRanges r chunk m n) = map_sum (\<lambda>e. e) snd (parseRanges r' chunk m' n)"
proof (induction r chunk m n arbitrary: m' rule: parseRanges.induct)
  case (1 r chunk match nrange)
  show ?case
  proof (cases "chunk \<noteq> [] \<and> hd chunk = CHR '']'' \<and> 0 < nrange")
    case True
    then show ?thesis
      by (simp add: parseRanges.simps [of r chunk] parseRanges.simps [of r' chunk])
  next
    case False
    have step: "parseRanges q chunk mm nrange =
        (case getEsc chunk of
           Inl err \<Rightarrow> Inl err
         | Inr (lo, chunk1) \<Rightarrow>
             if hd chunk1 = CHR ''-'' then
               (case getEsc (tl chunk1) of
                  Inl err \<Rightarrow> Inl err
                | Inr (hi, chunk2) \<Rightarrow>
                    parseRanges q chunk2 (mm \<or> (lo \<le> q \<and> q \<le> hi)) (nrange + 1))
             else parseRanges q chunk1 (mm \<or> (lo \<le> q \<and> q \<le> lo)) (nrange + 1))" for q mm
      by (subst parseRanges.simps) (simp only: if_not_P [OF False])
    show ?thesis
    proof (cases "getEsc chunk")
      case (Inl e)
      then show ?thesis by (simp add: step)
    next
      case (Inr x)
      obtain lo chunk1 where x: "x = (lo, chunk1)" by (cases x)
      show ?thesis
      proof (cases "hd chunk1 = CHR ''-''")
        case dash: True
        show ?thesis
        proof (cases "getEsc (tl chunk1)")
          case (Inl e)
          with Inr x dash show ?thesis by (simp add: step)
        next
          case inner: (Inr y)
          obtain hi chunk2 where y: "y = (hi, chunk2)" by (cases y)
          from "1.IH"(1) [OF False Inr x [symmetric] dash inner y [symmetric]]
          show ?thesis
            using Inr x dash inner y by (simp add: step)
        qed
      next
        case nodash: False
        from "1.IH"(2) [OF False Inr x [symmetric] nodash]
        show ?thesis
          using Inr x nodash by (simp add: step)
      qed
    qed
  qed
qed

lemma matchLoop_syntax:
  "map_sum (\<lambda>e. e) (\<lambda>x. ()) (matchLoop chunk s f) = map_sum (\<lambda>e. e) (\<lambda>x. ()) (matchLoop chunk s' f')"
proof (induction "length chunk" arbitrary: chunk s f s' f' rule: less_induct)
  case less
  note IH = less.hyps
  show ?case
  proof (cases chunk)
    case Nil
    then show ?thesis by simp
  next
    case (Cons c cs)
    have shorter: "length cs < length chunk" by (simp add: Cons)
    have rec: "map_sum (\<lambda>e. e) (\<lambda>x. ()) (matchLoop cs a g)
        = map_sum (\<lambda>e. e) (\<lambda>x. ()) (matchLoop cs a' g')" for a g a' g'
      by (rule IH [OF shorter])
    consider (bracket) "c = CHR ''[''" | (any) "c \<noteq> CHR ''[''" "c = CHR ''?''"
      | (esc) "c \<noteq> CHR ''[''" "c \<noteq> CHR ''?''" "c = backslash"
      | (lit) "c \<noteq> CHR ''[''" "c \<noteq> CHR ''?''" "c \<noteq> backslash"
      by blast
    then show ?thesis
    proof cases
      case bracket
      define chunk1 where "chunk1 = (if cs \<noteq> [] \<and> hd cs = CHR ''^'' then tl cs else cs)"
      have l1: "length chunk1 \<le> length cs" by (simp add: chunk1_def)
      have both: "map_sum (\<lambda>e. e) (\<lambda>x. ()) (case parseRanges r chunk1 False 0 of
              Inl err \<Rightarrow> Inl err
            | Inr (match, chunk2) \<Rightarrow> matchLoop chunk2 a (g match))
          = map_sum (\<lambda>e. e) (\<lambda>x. ()) (case parseRanges r' chunk1 False 0 of
              Inl err \<Rightarrow> Inl err
            | Inr (match, chunk2) \<Rightarrow> matchLoop chunk2 a' (g' match))" for r r' a a' g g'
      proof (cases "parseRanges r chunk1 False 0")
        case (Inl e)
        with parseRanges_syntax [of r chunk1 False 0 r' False]
        have "parseRanges r' chunk1 False 0 = Inl e"
          by (cases "parseRanges r' chunk1 False 0") simp_all
        with Inl show ?thesis by simp
      next
        case (Inr x)
        obtain m chunk2 where x: "x = (m, chunk2)" by (cases x)
        have "\<exists>m'. parseRanges r' chunk1 False 0 = Inr (m', chunk2)"
        proof (cases "parseRanges r' chunk1 False 0")
          case (Inl e)
          with Inr parseRanges_syntax [of r chunk1 False 0 r' False] show ?thesis by simp
        next
          case other: (Inr y)
          with Inr x parseRanges_syntax [of r chunk1 False 0 r' False]
          have "snd y = chunk2" by simp
          with other show ?thesis by (cases y) simp
        qed
        then obtain m' where r': "parseRanges r' chunk1 False 0 = Inr (m', chunk2)" ..
        from parseRanges_shorter [OF Inr [unfolded x]] l1 shorter
        have "length chunk2 < length chunk" by simp
        from IH [OF this] Inr x r' show ?thesis by simp
      qed
      show ?thesis
        unfolding Cons bracket matchLoop.simps Let_def chunk1_def [symmetric]
        by (simp only: if_True refl simp_thms) (rule both)
    next
      case any
      show ?thesis
        unfolding Cons any(2)
        by (simp add: Let_def) (intro conjI impI rec)
    next
      case esc
      show ?thesis
      proof (cases cs)
        case Nil
        with esc show ?thesis by (simp add: Cons)
      next
        case inner: (Cons c' cs')
        have "length cs' < length chunk" by (simp add: Cons inner)
        note rec' = IH [OF this]
        from esc show ?thesis
          unfolding Cons inner
          by (simp add: Let_def) (intro conjI impI rec')
      qed
    next
      case lit
      then show ?thesis
        unfolding Cons
        by (simp add: Let_def) (intro conjI impI rec)
    qed
  qed
qed

lemma matchChunk_syntax:
  "(matchChunk chunk s = Inl e) = (matchChunk chunk s' = Inl e)"
  using matchLoop_syntax [of chunk s False s' False]
  by (cases "matchLoop chunk s False"; cases "matchLoop chunk s' False")
     (simp_all add: matchChunk_def)

lemma scanChunk_empty_chunk:
  assumes "scanChunk pattern = (star, [], rest)"
  shows "rest = []"
proof -
  define p where "p = dropWhile (\<lambda>c. c = CHR ''*'') pattern"
  from assms have t: "take (scanLoop False p) p = []" and r: "rest = drop (scanLoop False p) p"
    by (simp_all add: scanChunk_def Let_def p_def)
  have "p = []"
  proof (rule ccontr)
    assume "p \<noteq> []"
    then have "hd p \<noteq> CHR ''*''" unfolding p_def by (rule hd_dropWhile)
    moreover from \<open>p \<noteq> []\<close> obtain c cs where p: "p = c # cs" by (cases p) auto
    ultimately have "c \<noteq> CHR ''*''" by simp
    from scanLoop_pos [OF this, of cs] t p show False by simp
  qed
  with r show ?thesis by simp
qed

lemma Match_True_wellformed: "Match pattern name = Inr True \<Longrightarrow> \<not> malformed pattern"
proof (induction "length pattern" arbitrary: pattern name rule: less_induct)
  case less
  show ?case
  proof (cases "pattern = []")
    case True
    then show ?thesis by (simp add: malformed_def chunks.simps)
  next
    case False
    obtain star chunk rest where sc: "scanChunk pattern = (star, chunk, rest)"
      by (cases "scanChunk pattern")
    from scanChunk_shorter [OF False sc] have shorter: "length rest < length pattern" .
    from False sc have ch: "chunks pattern = chunk # chunks rest"
      by (simp add: chunks.simps [of pattern])
    show ?thesis
    proof (cases "star \<and> chunk = []")
      case True
      with sc have "rest = []" by (auto dest: scanChunk_empty_chunk)
      with True ch show ?thesis
        by (simp add: malformed_def chunks.simps [of "[]"] matchChunk_def)
    next
      case nostar: False
      show ?thesis
      proof (cases "matchChunk chunk name")
        case (Inl e)
        with less.prems False sc nostar show ?thesis
          by (simp add: Match.simps [of pattern])
      next
        case (Inr ok)
        then have wfc: "matchChunk chunk [] \<noteq> Inl ErrBadPattern"
          using matchChunk_syntax [of chunk "[]" ErrBadPattern name] by simp
        have unf: "Match pattern name =
            (if ok \<noteq> None \<and> (the ok = [] \<or> rest \<noteq> []) then Match rest (the ok)
             else if star then
               (case starLoop chunk (rest = []) name of
                  Inl err \<Rightarrow> Inl err
                | Inr (Some t) \<Rightarrow> Match rest t
                | Inr None \<Rightarrow> Inr False)
             else Inr False)"
          by (subst Match.simps)
             (simp only: if_not_P [OF False] sc prod.case if_not_P [OF nostar] Inr sum.case)
        have "\<exists>t. Match rest t = Inr True"
        proof (cases "ok \<noteq> None \<and> (the ok = [] \<or> rest \<noteq> [])")
          case True
          from less.prems have "Match rest (the ok) = Inr True"
            unfolding unf if_P [OF True] .
          then show ?thesis ..
        next
          case miss: False
          show ?thesis
          proof (cases star)
            case False
            from less.prems have "(Inr False :: error + bool) = Inr True"
              unfolding unf if_not_P [OF miss] if_not_P [OF False] .
            then show ?thesis by simp
          next
            case True
            from less.prems
            have m: "(case starLoop chunk (rest = []) name of
                 Inl err \<Rightarrow> Inl err
               | Inr (Some t) \<Rightarrow> Match rest t
               | Inr None \<Rightarrow> Inr False) = Inr True"
              unfolding unf if_not_P [OF miss] if_P [OF True] .
            then show ?thesis
              by (auto split: sum.splits option.splits)
          qed
        qed
        then obtain t where "Match rest t = Inr True" ..
        from less.hyps [OF shorter this] have "\<not> malformed rest" .
        with wfc ch show ?thesis by (simp add: malformed_def)
      qed
    qed
  qed
qed

lemmas glob_eval = matchSubject_def Contains_star_def ReplaceAll_star_def Match.simps
  scanChunk_def Separator_def matchChunk_def parseRanges.simps getEsc_def
  DecodeRuneInString_def byteAt_def backslash_def RuneError_def Let_def

lemma question_mark_any:
  assumes "c \<noteq> Separator" and "(of_char c :: nat) < 0x80"
  shows "matchSubject ''*.?'' (''x.'' @ [c])"
proof -
  have d: "DecodeRuneInString [c] = (of_char c, 1)"
    using assms(2) by (simp add: DecodeRuneInString_def byteAt_def)
  have sc: "scanChunk ''*.?'' = (True, ''.?'', [])"
    by (simp add: scanChunk_def backslash_def)
  have m1: "matchChunk ''.?'' [CHR ''x'', CHR ''.'', c] = Inr None"
    by (simp add: matchChunk_def backslash_def)
  have m2: "matchChunk ''.?'' [CHR ''.'', c] = Inr (Some [])"
    using assms(1) by (simp add: matchChunk_def backslash_def d)
  have "Match ''*.?'' [CHR ''x'', CHR ''.'', c] = Inr True"
    by (subst Match.simps) (simp add: sc m1 m2 Separator_def Match.simps [of "[]"])
  then show ?thesis
    by (simp add: matchSubject_def Contains_star_def ReplaceAll_star_id)
qed

lemma malformed_open_bracket: "malformed ''*.[''"
proof -
  have "chunks ''*.['' = [''.['']"
    by (simp add: chunks.simps scanChunk_def backslash_def)
  moreover have "matchChunk ''.['' [] = Inl ErrBadPattern"
    by (simp add: matchChunk_def parseRanges.simps getEsc_def backslash_def)
  ultimately show ?thesis by (simp add: malformed_def)
qed

section \<open>Validation of registrations\<close>

text \<open>
  Claim C7.  \<open>SubscribeWithHandlerGroup\<close> fails exactly when the subject is empty, the
  group is empty or the handler is \<open>nil\<close>; when it fails the bus is unchanged, and when it
  succeeds the bus has changed.  The message names the first violated field, and the
  three messages are distinct.  \<open>Subscribe\<close> with an empty subject fails with the
  subject-required message and leaves the bus unchanged.
\<close>

theorem subscribe_validation:
  fixes b :: "'h MemoryBus"
  defines "msgs \<equiv> [''subject is required'', ''group is required'', ''handler is required'']"
  shows "(fst (SubscribeWithHandlerGroup b subject grp handler) \<noteq> None
            \<longleftrightarrow> subject = [] \<or> grp = [] \<or> handler = None)
    \<and> (fst (SubscribeWithHandlerGroup b subject grp handler) \<noteq> None
            \<longrightarrow> snd (SubscribeWithHandlerGroup b subject grp handler) = b)
    \<and> (fst (SubscribeWithHandlerGroup b subject grp handler) = None
            \<longrightarrow> snd (SubscribeWithHandlerGroup b subject grp handler) \<noteq> b)
    \<and> (subject = [] \<longrightarrow> fst (SubscribeWithHandlerGroup b subject grp handler) = Some (msgs ! 0))
    \<and> (subject \<noteq> [] \<and> grp = []
            \<longrightarrow> fst (SubscribeWithHandlerGroup b subject grp handler) = Some (msgs ! 1))
    \<and> (subject \<noteq> [] \<and> grp \<noteq> [] \<and> handler = None
            \<longrightarrow> fst (SubscribeWithHandlerGroup b subject grp handler) = Some (msgs ! 2))
    \<and> distinct msgs
    \<and> Subscribe b [] handler = (Some ''subject is required'', b)"
proof -
  have changed: "snd (SubscribeWithHandlerGroup b subject grp handler) \<noteq> b"
    if ok: "subject \<noteq> []" "grp \<noteq> []" "handler \<noteq> None"
  proof
    assume eq: "snd (SubscribeWithHandlerGroup b subject grp handler) = b"
    define f where "f = (\<lambda>b :: 'h MemoryBus.
      length (handlersAt (groupsAt (groups b) subject) grp))"
    from ok have "f (snd (SubscribeWithHandlerGroup b subject grp handler)) = f b + 1"
      by (auto simp: f_def SubscribeWithHandlerGroup_def Let_def handlersAt_def groupsAt_def)
    with eq show False by simp
  qed
  show ?thesis
    using changed
    by (auto simp: SubscribeWithHandlerGroup_def Subscribe_def Let_def msgs_def)
qed

text \<open>The theorem at one input for each of the three violations and for a valid call.\<close>

theorem subscribe_validation_witness:
  "SubscribeWithHandlerGroup (NewMemoryBus :: nat MemoryBus) ''a.b'' [] (Some 7)
      = (Some ''group is required'', NewMemoryBus)
   \<and> SubscribeWithHandlerGroup (NewMemoryBus :: nat MemoryBus) [] ''g'' (Some 7)
      = (Some ''subject is required'', NewMemoryBus)
   \<and> SubscribeWithHandlerGroup (NewMemoryBus :: nat MemoryBus) ''a.b'' ''g'' None
      = (Some ''handler is required'', NewMemoryBus)
   \<and> fst (SubscribeWithHandlerGroup (NewMemoryBus :: nat MemoryBus) ''a.b'' ''g'' (Some 7)) = None
   \<and> snd (SubscribeWithHandlerGroup (NewMemoryBus :: nat MemoryBus) ''a.b'' ''g'' (Some 7))
        \<noteq> NewMemoryBus"
  using subscribe_validation [of "NewMemoryBus :: nat MemoryBus" "''a.b''" "[]" "Some 7"]
    subscribe_validation [of "NewMemoryBus :: nat MemoryBus" "[]" "''g''" "Some 7"]
    subscribe_validation [of "NewMemoryBus :: nat MemoryBus" "''a.b''" "''g''" "None"]
    subscribe_validation [of "NewMemoryBus :: nat MemoryBus" "''a.b''" "''g''" "Some 7"]
  by (simp add: prod_eq_iff SubscribeWithHandlerGroup_def)

section \<open>Segment-wise matching\<close>

text \<open>
  Claim C1.  The claim says that a pattern with \<open>*\<close> matches segment by segment, each
  \<open>*\<close> standing for exactly one segment that is not empty, and that is what the comment
  in \<open>matchSubject\<close> says of \<open>*\<close> too (single-level matching).  The five subjects the claim
  lists are decided by \<open>matchSubject\<close> as the claim says.  But \<open>matchSubject\<close> hands the
  pattern to \<open>filepath.Match\<close>, whose \<open>*\<close> stands for any run of bytes without a \<open>/\<close>, dots
  included and the empty run too: the pattern \<open>app.*.created\<close> matches the subject
  \<open>app.user.extra.created\<close>, of four segments, and the subject \<open>app..created\<close>, whose
  middle segment is empty.  The segment-wise rule rejects both.
\<close>

theorem matchSubject_crosses_segments:
  "matchSubject ''app.*.created'' ''app.user.extra.created''
   \<and> \<not> specMatches ''app.*.created'' ''app.user.extra.created''
   \<and> matchSubject ''app.*.created'' ''app..created''
   \<and> \<not> specMatches ''app.*.created'' ''app..created''
   \<and> matchSubject ''app.*.created'' ''app.user.created''
   \<and> matchSubject ''app.*.created'' ''app.order.created''
   \<and> \<not> matchSubject ''app.*.created'' ''app.user.updated''
   \<and> \<not> matchSubject ''app.*.created'' ''user.created''
   \<and> \<not> matchSubject ''app.*.created'' ''app.user.created.v2''"
  by code_simp

section \<open>Handler failures\<close>

text \<open>
  The \<open>Publish\<close> that validates its arguments and matches patterns keeps a failure to
  itself.  Whatever the handlers return: a publish with a subject that is not empty and
  an event that is not \<open>nil\<close> returns \<open>nil\<close>, every call of it has in \<open>returned\<close> what the
  handler returned, failure or not, and the bus it leaves and the sequence of calls it
  makes (handler, event and registry entry) are the ones of the same publish with
  handlers that never fail.
\<close>

theorem handler_failure_isolated:
  assumes "wellFormed b" and "cursorsBelow b (2 ^ 63)" and "validOrder b ord"
    and "subject \<noteq> []"
  shows "\<exists>b' tr tr'. Publish ord run b subject (Some e) = Inr (None, b', tr)
    \<and> (\<forall>c\<in>set tr. returned c = run (callee c) e)
    \<and> Publish ord (\<lambda>h e. None) b subject (Some e) = Inr (None, b', tr')
    \<and> map erase tr = map erase tr'"
proof -
  let ?quiet = "(\<lambda>h e. None) :: 'a \<Rightarrow> 'b \<Rightarrow> string option"
  from Publish_ok [OF assms, of run e]
  obtain b' where run: "Publish ord run b subject (Some e)
            = Inr (None, b', broadcastCalls run b subject e (handlerKeys ord)
                              @ groupCalls run b subject e (memberKeys ord) (groupKeys ord))"
    by blast
  from Publish_ok [OF assms, of ?quiet e]
  obtain b'' where quiet: "Publish ord ?quiet b subject (Some e)
            = Inr (None, b'', broadcastCalls ?quiet b subject e (handlerKeys ord)
                              @ groupCalls ?quiet b subject e (memberKeys ord) (groupKeys ord))"
    by blast
  from Publish_state [of ord run b subject "Some e" ?quiet] run quiet
  have same: "b'' = b'" by simp
  have ret: "\<forall>c\<in>set (broadcastCalls run b subject e (handlerKeys ord)
                              @ groupCalls run b subject e (memberKeys ord) (groupKeys ord)).
      returned c = run (callee c) e"
  proof
    fix c
    assume c: "c \<in> set (broadcastCalls run b subject e (handlerKeys ord)
                              @ groupCalls run b subject e (memberKeys ord) (groupKeys ord))"
    then have "returned c = run (callee c) (arg c)"
      by (auto dest: returned_broadcastCalls returned_groupCalls)
    moreover from c have "arg c = e"
      by (auto simp: broadcastCalls_def groupCalls_def memberCalls_def selectCall_def Let_def
          callsOf_def split: if_splits option.splits)
    ultimately show "returned c = run (callee c) e" by simp
  qed
  have "map erase (broadcastCalls run b subject e (handlerKeys ord)
                              @ groupCalls run b subject e (memberKeys ord) (groupKeys ord))
      = map erase (broadcastCalls ?quiet b subject e (handlerKeys ord)
                              @ groupCalls ?quiet b subject e (memberKeys ord) (groupKeys ord))"
    by (simp add: erase_broadcastCalls [of run _ _ _ _ ?quiet]
        erase_groupCalls [of run _ _ _ _ _ ?quiet])
  with run quiet same ret show ?thesis by blast
qed

text \<open>On \<open>demoBus\<close> the handlers \<open>1\<close> and \<open>5\<close> fail, all four calls are made and the publish returns \<open>nil\<close>.\<close>

theorem handler_failure_isolated_witness:
  "wellFormed demoBus \<and> cursorsBelow demoBus (2 ^ 63) \<and> validOrder demoBus demoOrder
   \<and> (\<exists>b' tr tr'. Publish demoOrder demoRun demoBus ''a.b'' (Some 9) = Inr (None, b', tr)
        \<and> map callee tr = [1, 2, 5, 3]
        \<and> map returned tr = [Some ''boom'', None, Some ''boom'', None]
        \<and> Publish demoOrder (\<lambda>h e. None) demoBus ''a.b'' (Some 9) = Inr (None, b', tr')
        \<and> map erase tr = map erase tr')"
proof -
  from handler_failure_isolated [OF demo_wf demo_rng demo_ord, of "''a.b''" demoRun 9]
  obtain b' tr tr' where p: "Publish demoOrder demoRun demoBus ''a.b'' (Some 9) = Inr (None, b', tr)"
    and q: "Publish demoOrder (\<lambda>h e. None) demoBus ''a.b'' (Some 9) = Inr (None, b', tr')"
    and same: "map erase tr = map erase tr'"
    by auto
  from p have c: "map callee tr = [1, 2, 5, 3]"
    and r: "map returned tr = [Some ''boom'', None, Some ''boom'', None]"
    by (auto simp: demo_publish)
  show ?thesis
    by (intro conjI exI [of _ b'] exI [of _ tr] exI [of _ tr'])
       (rule demo_wf demo_rng demo_ord p q same c r)+
qed

text \<open>
  Claim C2.  A handler that fails is not to reach the publisher and is not to keep a later
  handler, broadcast or group, from being called.  The \<open>Publish\<close> above does that, and the
  test of the package (a failing handler and a second one for the same subject) asks for
  it.  The \<open>Publish\<close> of the other file does not.  On \<open>demoBus\<close> with handler \<open>1\<close> failing it
  returns the wrapped error after the first call, and handler \<open>2\<close>, registered for the same
  subject, is not called.  With handler \<open>5\<close> of group \<open>g2\<close> failing, and no other, it calls both
  broadcast handlers and handler \<open>5\<close>, returns the wrapped error, and the group \<open>g1\<close> gets no
  call.  The validating \<open>Publish\<close> on the same bus makes all four calls and returns \<open>nil\<close>.
\<close>

theorem publish_exact_stops_at_failure:
  "PublishExact demoOrder demoRun demoBus ''a.b'' 9
     = Inr (Some ''handler error: boom'', demoBus,
         [\<lparr>callee = 1, arg = 9, via = Broadcast ''a.b'', returned = Some ''boom''\<rparr>])
   \<and> PublishExact demoOrder groupRun demoBus ''a.b'' 9
     = Inr (Some ''group handler error: boom'',
         demoBus\<lparr>groupIndex := [''a.b'' \<mapsto> [''g2'' \<mapsto> 1]]\<rparr>,
         [\<lparr>callee = 1, arg = 9, via = Broadcast ''a.b'', returned = None\<rparr>,
          \<lparr>callee = 2, arg = 9, via = Broadcast ''a.b'', returned = None\<rparr>,
          \<lparr>callee = 5, arg = 9, via = Group ''a.b'' ''g2'', returned = Some ''boom''\<rparr>])
   \<and> Publish demoOrder demoRun demoBus ''a.b'' (Some 9)
     = Inr (None, demoBus\<lparr>groupIndex := [''a.b'' \<mapsto> [''g2'' \<mapsto> 1, ''g1'' \<mapsto> 1]]\<rparr>,
         [\<lparr>callee = 1, arg = 9, via = Broadcast ''a.b'', returned = Some ''boom''\<rparr>,
          \<lparr>callee = 2, arg = 9, via = Broadcast ''a.b'', returned = None\<rparr>,
          \<lparr>callee = 5, arg = 9, via = Group ''a.b'' ''g2'', returned = Some ''boom''\<rparr>,
          \<lparr>callee = 3, arg = 9, via = Group ''a.b'' ''g1'', returned = None\<rparr>])"
proof (intro conjI)
  show "PublishExact demoOrder demoRun demoBus ''a.b'' 9
     = Inr (Some ''handler error: boom'', demoBus,
         [\<lparr>callee = 1, arg = 9, via = Broadcast ''a.b'', returned = Some ''boom''\<rparr>])"
    by (simp add: PublishExact_def demoBus_def demoRun_def handlersAt_def invoke_def)
  show "PublishExact demoOrder groupRun demoBus ''a.b'' 9
     = Inr (Some ''group handler error: boom'',
         demoBus\<lparr>groupIndex := [''a.b'' \<mapsto> [''g2'' \<mapsto> 1]]\<rparr>,
         [\<lparr>callee = 1, arg = 9, via = Broadcast ''a.b'', returned = None\<rparr>,
          \<lparr>callee = 2, arg = 9, via = Broadcast ''a.b'', returned = None\<rparr>,
          \<lparr>callee = 5, arg = 9, via = Group ''a.b'' ''g2'', returned = Some ''boom''\<rparr>])"
    by (simp add: PublishExact_def demoOrder_def demoBus_def groupRun_def handlersAt_def
        invoke_def roundRobin_def cursor_def Let_def signed_modulo_int_def)
  show "Publish demoOrder demoRun demoBus ''a.b'' (Some 9)
     = Inr (None, demoBus\<lparr>groupIndex := [''a.b'' \<mapsto> [''g2'' \<mapsto> 1, ''g1'' \<mapsto> 1]]\<rparr>,
         [\<lparr>callee = 1, arg = 9, via = Broadcast ''a.b'', returned = Some ''boom''\<rparr>,
          \<lparr>callee = 2, arg = 9, via = Broadcast ''a.b'', returned = None\<rparr>,
          \<lparr>callee = 5, arg = 9, via = Group ''a.b'' ''g2'', returned = Some ''boom''\<rparr>,
          \<lparr>callee = 3, arg = 9, via = Group ''a.b'' ''g1'', returned = None\<rparr>])"
    by (rule demo_publish)
qed

section \<open>Round robin within a group\<close>

text \<open>
  Claim C3, as amended.  For a group \<open>g\<close> with handlers \<open>hs\<close>, not empty, under a pattern \<open>p\<close>
  that matches the subject: a publish calls exactly one handler of the group, the one at
  index cursor \<open>mod\<close> the number of handlers, and then the cursor is one more.  A
  registration appends to the group's list and keeps the cursor.  With two handlers,
  consecutive publishes, each with its own event, call the two in turn, beginning with the
  handler at index cursor \<open>mod 2\<close>: with the first-registered handler when the cursor is
  \<open>0\<close>, as it is for a group that no publish has reached.  Of \<open>N\<close> publishes the handler that
  is called first gets \<open>(N + 1) div 2\<close> and the other \<open>N div 2\<close>.  Every cursor of the bus is
  taken below \<open>k\<close>, with \<open>k + N\<close> at most \<open>2 ^ 63\<close>: the cursors do not wrap around during the
  publishes.
\<close>

theorem group_round_robin:
  assumes "wellFormed b" and "cursorsBelow b k" and "k + int (length oes) \<le> 2 ^ 63"
    and "validOrder b ord" and "\<forall>oe\<in>set oes. validOrder b (fst oe)"
    and "subject \<noteq> []" and "matchSubject p subject"
    and "handlersAt (groupsAt (groups b) p) g = hs" and "hs \<noteq> []"
  shows "(\<exists>b' tr f. Publish ord run b subject (Some e) = Inr (None, b', tr)
        \<and> hs ! (nat (sint (cursor (groupIndex b) p g)) mod length hs) = Some f
        \<and> filter (\<lambda>c. via c = Group p g) tr
             = [\<lparr>callee = f, arg = e, via = Group p g, returned = run f e\<rparr>]
        \<and> cursor (groupIndex b') p g = cursor (groupIndex b) p g + 1)
    \<and> (p \<noteq> [] \<and> g \<noteq> []
        \<longrightarrow> handlersAt (groupsAt (groups (snd (SubscribeWithHandlerGroup b p g (Some h)))) p) g
              = hs @ [Some h]
          \<and> cursor (groupIndex (snd (SubscribeWithHandlerGroup b p g (Some h)))) p g
              = cursor (groupIndex b) p g)
    \<and> (hs = [Some h1, Some h2]
        \<longrightarrow> (\<exists>b' tr. publishAll run b subject oes = Inr (replicate (length oes) None, b', tr)
              \<and> map callee (filter (\<lambda>c. via c = Group p g) tr)
                   = map (\<lambda>i. if even (nat (sint (cursor (groupIndex b) p g)) + i) then h1 else h2)
                       [0..<length oes]
              \<and> map arg (filter (\<lambda>c. via c = Group p g) tr) = map snd oes
              \<and> (cursor (groupIndex b) p g = 0
                  \<longrightarrow> map callee (filter (\<lambda>c. via c = Group p g) tr)
                        = map (\<lambda>i. if even i then h1 else h2) [0..<length oes])
              \<and> (h1 \<noteq> h2
                  \<longrightarrow> length (filter (\<lambda>c. via c = Group p g \<and> callee c = h1) tr)
                        = (if even (nat (sint (cursor (groupIndex b) p g)))
                           then (length oes + 1) div 2 else length oes div 2)
                    \<and> length (filter (\<lambda>c. via c = Group p g \<and> callee c = h2) tr)
                        = (if even (nat (sint (cursor (groupIndex b) p g)))
                           then length oes div 2 else (length oes + 1) div 2))))"
proof (intro conjI impI)
  from assms(3) have "k \<le> 2 ^ 63" by simp
  with assms(2) have rng: "cursorsBelow b (2 ^ 63)" by (rule cursorsBelow_mono)
  from Publish_calls [OF assms(1) rng assms(4,6), of run e]
  obtain b' tr where run: "Publish ord run b subject (Some e) = Inr (None, b', tr)"
    and st: "stepped b b' (dispatched b subject)"
    and gc: "filter (\<lambda>c. via c = Group p g) tr
                = selectCall run p (groupsAt (groups b) p) (groupIndex b) e g"
    using assms(7) by auto
  from assms(7,8,9) have "dispatched b subject p g" by (simp add: dispatched_def)
  with st have cur: "cursor (groupIndex b') p g = cursor (groupIndex b) p g + 1"
    by (simp add: stepped_def)
  from assms(8,9) have ne: "handlersAt (groupsAt (groups b) p) g \<noteq> []" by simp
  from selectCall_single [OF wellFormed_groups [OF assms(1)] ne, of "groupIndex b" p run e]
  obtain f where "hs ! (nat (sint (cursor (groupIndex b) p g)) mod length hs) = Some f"
    and "selectCall run p (groupsAt (groups b) p) (groupIndex b) e g
      = [\<lparr>callee = f, arg = e, via = Group p g, returned = run f e\<rparr>]"
    unfolding assms(8) slot_def by blast
  with run gc cur
  show "\<exists>b' tr f. Publish ord run b subject (Some e) = Inr (None, b', tr)
        \<and> hs ! (nat (sint (cursor (groupIndex b) p g)) mod length hs) = Some f
        \<and> filter (\<lambda>c. via c = Group p g) tr
             = [\<lparr>callee = f, arg = e, via = Group p g, returned = run f e\<rparr>]
        \<and> cursor (groupIndex b') p g = cursor (groupIndex b) p g + 1"
    by auto
next
  assume "p \<noteq> [] \<and> g \<noteq> []"
  then show "handlersAt (groupsAt (groups (snd (SubscribeWithHandlerGroup b p g (Some h)))) p) g
      = hs @ [Some h]"
    using SubscribeWithHandlerGroup_appends(1) [of p g b h] assms(8) by simp
next
  assume "p \<noteq> [] \<and> g \<noteq> []"
  then show "cursor (groupIndex (snd (SubscribeWithHandlerGroup b p g (Some h)))) p g
      = cursor (groupIndex b) p g"
    using SubscribeWithHandlerGroup_appends(2) [of p g b h] by simp
next
  assume two: "hs = [Some h1, Some h2]"
  let ?n = "nat (sint (cursor (groupIndex b) p g))"
  let ?N = "length oes"
  from publishAll_rotation [OF assms(1,2,3,5,6,7,8,9), of run]
  obtain b' tr where run: "publishAll run b subject oes = Inr (replicate ?N None, b', tr)"
    and rot: "filter (\<lambda>c. via c = Group p g) tr
        = rotation run (Group p g) [Some h1, Some h2] ?n (map snd oes)"
    using two by auto
  have callee: "map callee (filter (\<lambda>c. via c = Group p g) tr)
      = map (\<lambda>i. if even (?n + i) then h1 else h2) [0..<?N]"
    unfolding rot rotation_two_callee by simp
  have arg: "map arg (filter (\<lambda>c. via c = Group p g) tr) = map snd oes"
    unfolding rot by (rule rotation_arg) simp_all
  have fresh: "map callee (filter (\<lambda>c. via c = Group p g) tr)
      = map (\<lambda>i. if even i then h1 else h2) [0..<?N]"
    if "cursor (groupIndex b) p g = 0"
    unfolding callee using that by simp
  have counts: "length (filter (\<lambda>c. via c = Group p g \<and> callee c = h1) tr)
        = (if even ?n then (?N + 1) div 2 else ?N div 2)
      \<and> length (filter (\<lambda>c. via c = Group p g \<and> callee c = h2) tr)
        = (if even ?n then ?N div 2 else (?N + 1) div 2)"
    if "h1 \<noteq> h2"
  proof -
    from that have "filter (\<lambda>x. x = h1) (map (\<lambda>i. if even (?n + i) then h1 else h2) [0..<?N])
        = map (\<lambda>i. h1) (filter (\<lambda>i. even (?n + i)) [0..<?N])"
      by (induction "?N") (auto simp: filter_map comp_def)
    moreover from that
    have "filter (\<lambda>x. x = h2) (map (\<lambda>i. if even (?n + i) then h1 else h2) [0..<?N])
        = map (\<lambda>i. h2) (filter (\<lambda>i. odd (?n + i)) [0..<?N])"
      by (induction "?N") (auto simp: filter_map comp_def)
    ultimately show ?thesis
      using count_shifted [of ?n ?N] by (simp add: count_callee callee)
  qed
  from run callee arg fresh counts
  show "\<exists>b' tr. publishAll run b subject oes = Inr (replicate ?N None, b', tr)
      \<and> map callee (filter (\<lambda>c. via c = Group p g) tr)
           = map (\<lambda>i. if even (?n + i) then h1 else h2) [0..<?N]
      \<and> map arg (filter (\<lambda>c. via c = Group p g) tr) = map snd oes
      \<and> (cursor (groupIndex b) p g = 0
          \<longrightarrow> map callee (filter (\<lambda>c. via c = Group p g) tr)
                = map (\<lambda>i. if even i then h1 else h2) [0..<?N])
      \<and> (h1 \<noteq> h2
          \<longrightarrow> length (filter (\<lambda>c. via c = Group p g \<and> callee c = h1) tr)
                = (if even ?n then (?N + 1) div 2 else ?N div 2)
            \<and> length (filter (\<lambda>c. via c = Group p g \<and> callee c = h2) tr)
                = (if even ?n then ?N div 2 else (?N + 1) div 2))"
    by blast
qed

text \<open>
  The claim as it was stated has the rotation begin with the first-registered handler
  whatever the cursor.  It does not when the second handler joins a group that has
  already been published to: register handler \<open>1\<close>, publish once, register handler \<open>2\<close>, and
  the next three publishes call \<open>2\<close>, \<open>1\<close>, \<open>2\<close>.
\<close>

theorem late_joiner_is_called_first:
  "Publish lateOrder quietRun (snd (SubscribeWithHandlerGroup NewMemoryBus ''a.b'' ''g'' (Some 1)))
      ''a.b'' (Some 9)
     = Inr (None, earlyBus,
         [\<lparr>callee = 1, arg = 9, via = Group ''a.b'' ''g'', returned = None\<rparr>])
   \<and> SubscribeWithHandlerGroup earlyBus ''a.b'' ''g'' (Some 2) = (None, lateBus)
   \<and> handlersAt (groupsAt (groups lateBus) ''a.b'') ''g'' = [Some 1, Some 2]
   \<and> wellFormed lateBus \<and> cursorsBelow lateBus 2 \<and> validOrder lateBus lateOrder
   \<and> matchSubject ''a.b'' ''a.b''
   \<and> publishAll quietRun lateBus ''a.b'' [(lateOrder, 10), (lateOrder, 11), (lateOrder, 12)]
     = Inr ([None, None, None], lateBus\<lparr>groupIndex := [''a.b'' \<mapsto> [''g'' \<mapsto> 4]]\<rparr>,
         [\<lparr>callee = 2, arg = 10, via = Group ''a.b'' ''g'', returned = None\<rparr>,
          \<lparr>callee = 1, arg = 11, via = Group ''a.b'' ''g'', returned = None\<rparr>,
          \<lparr>callee = 2, arg = 12, via = Group ''a.b'' ''g'', returned = None\<rparr>])"
proof -
  have hs: "handlersAt (groupsAt (groups lateBus) ''a.b'') ''g'' = [Some 1, Some 2]"
    by (simp add: lateBus_def groupsAt_def handlersAt_def)
  show ?thesis
    by (intro conjI)
       (rule earlyBus_built lateBus_built hs late_wf late_rng late_ord demo_match late_publishes)+
qed

text \<open>
  The amended claim on \<open>demoBus\<close>, group \<open>g1\<close> with the handlers \<open>3\<close> and \<open>4\<close> and the cursor at
  \<open>0\<close>, and five publishes.
\<close>

theorem group_round_robin_witness:
  "wellFormed demoBus \<and> cursorsBelow demoBus 1 \<and> validOrder demoBus demoOrder
   \<and> matchSubject ''a.b'' ''a.b''
   \<and> handlersAt (groupsAt (groups demoBus) ''a.b'') ''g1'' = [Some 3, Some 4]
   \<and> cursor (groupIndex demoBus) ''a.b'' ''g1'' = 0
   \<and> (\<exists>b' tr. Publish demoOrder demoRun demoBus ''a.b'' (Some 10) = Inr (None, b', tr)
        \<and> filter (\<lambda>c. via c = Group ''a.b'' ''g1'') tr
             = [\<lparr>callee = 3, arg = 10, via = Group ''a.b'' ''g1'', returned = None\<rparr>]
        \<and> cursor (groupIndex b') ''a.b'' ''g1'' = 1)
   \<and> handlersAt (groupsAt (groups (snd (SubscribeWithHandlerGroup demoBus ''a.b'' ''g1'' (Some 8))))
          ''a.b'') ''g1'' = [Some 3, Some 4, Some 8]
   \<and> cursor (groupIndex (snd (SubscribeWithHandlerGroup demoBus ''a.b'' ''g1'' (Some 8))))
          ''a.b'' ''g1'' = 0
   \<and> (\<exists>b' tr. publishAll demoRun demoBus ''a.b''
          [(demoOrder, 10), (demoOrder, 11), (demoOrder, 12), (demoOrder, 13), (demoOrder, 14)]
          = Inr ([None, None, None, None, None], b', tr)
        \<and> map callee (filter (\<lambda>c. via c = Group ''a.b'' ''g1'') tr) = [3, 4, 3, 4, 3]
        \<and> map arg (filter (\<lambda>c. via c = Group ''a.b'' ''g1'') tr) = [10, 11, 12, 13, 14]
        \<and> length (filter (\<lambda>c. via c = Group ''a.b'' ''g1'' \<and> callee c = 3) tr) = 3
        \<and> length (filter (\<lambda>c. via c = Group ''a.b'' ''g1'' \<and> callee c = 4) tr) = 2)"
proof -
  let ?oes = "[(demoOrder, 10), (demoOrder, 11), (demoOrder, 12), (demoOrder, 13), (demoOrder, 14 :: nat)]"
  have hs: "handlersAt (groupsAt (groups demoBus) ''a.b'') ''g1'' = [Some 3, Some 4]"
    by (simp add: demoBus_def groupsAt_def handlersAt_def)
  have c: "cursor (groupIndex demoBus) ''a.b'' ''g1'' = 0"
    by (simp add: demoBus_def cursor_def)
  have k: "1 + int (length ?oes) \<le> 2 ^ 63" by simp
  have ords: "\<forall>oe\<in>set ?oes. validOrder demoBus (fst oe)" by (simp add: demo_ord)
  have upt: "[0..<5] = [0, 1, 2, 3, 4 :: nat]" by (simp add: upt_rec)
  have ne: "''a.b'' \<noteq> []" "[Some 3, Some (4::nat)] \<noteq> []" by simp_all
  note rr = group_round_robin [OF demo_wf demo_rng1 k demo_ord ords ne(1) demo_match hs ne(2),
      of demoRun 10 8 3 4]
  from rr [THEN conjunct1]
  obtain b1 tr1 f where one: "Publish demoOrder demoRun demoBus ''a.b'' (Some 10) = Inr (None, b1, tr1)"
    "[Some 3, Some 4] ! (nat (sint (cursor (groupIndex demoBus) ''a.b'' ''g1'')) mod length [Some 3, Some (4::nat)]) = Some f"
    "filter (\<lambda>c. via c = Group ''a.b'' ''g1'') tr1
       = [\<lparr>callee = f, arg = 10, via = Group ''a.b'' ''g1'', returned = demoRun f 10\<rparr>]"
    "cursor (groupIndex b1) ''a.b'' ''g1'' = cursor (groupIndex demoBus) ''a.b'' ''g1'' + 1"
    by (elim exE conjE)
  from one(2) have f: "f = 3" by (simp add: c)
  have reg: "handlersAt (groupsAt (groups (snd (SubscribeWithHandlerGroup demoBus ''a.b'' ''g1''
      (Some 8)))) ''a.b'') ''g1'' = [Some 3, Some 4, Some 8]"
    "cursor (groupIndex (snd (SubscribeWithHandlerGroup demoBus ''a.b'' ''g1'' (Some 8))))
          ''a.b'' ''g1'' = 0"
    using rr [THEN conjunct2, THEN conjunct1] c by simp_all
  from rr [THEN conjunct2, THEN conjunct2, THEN mp, OF refl]
  obtain b' tr where many: "publishAll demoRun demoBus ''a.b'' ?oes
        = Inr (replicate (length ?oes) None, b', tr)"
    "map arg (filter (\<lambda>c. via c = Group ''a.b'' ''g1'') tr) = map snd ?oes"
    and fresh: "cursor (groupIndex demoBus) ''a.b'' ''g1'' = 0
      \<longrightarrow> map callee (filter (\<lambda>c. via c = Group ''a.b'' ''g1'') tr)
           = map (\<lambda>i. if even i then 3 else 4) [0..<length ?oes]"
    and cnt: "(3::nat) \<noteq> 4
      \<longrightarrow> length (filter (\<lambda>c. via c = Group ''a.b'' ''g1'' \<and> callee c = 3) tr)
            = (if even (nat (sint (cursor (groupIndex demoBus) ''a.b'' ''g1'')))
               then (length ?oes + 1) div 2 else length ?oes div 2)
        \<and> length (filter (\<lambda>c. via c = Group ''a.b'' ''g1'' \<and> callee c = 4) tr)
            = (if even (nat (sint (cursor (groupIndex demoBus) ''a.b'' ''g1'')))
               then length ?oes div 2 else (length ?oes + 1) div 2)"
    by (elim exE conjE)
  have p1: "\<exists>b' tr. Publish demoOrder demoRun demoBus ''a.b'' (Some 10) = Inr (None, b', tr)
        \<and> filter (\<lambda>c. via c = Group ''a.b'' ''g1'') tr
             = [\<lparr>callee = 3, arg = 10, via = Group ''a.b'' ''g1'', returned = None\<rparr>]
        \<and> cursor (groupIndex b') ''a.b'' ''g1'' = 1"
    using one(1,3,4) by (intro exI [of _ b1] exI [of _ tr1]) (simp add: f c demoRun_def)
  have p2: "\<exists>b' tr. publishAll demoRun demoBus ''a.b'' ?oes
          = Inr ([None, None, None, None, None], b', tr)
        \<and> map callee (filter (\<lambda>c. via c = Group ''a.b'' ''g1'') tr) = [3, 4, 3, 4, 3]
        \<and> map arg (filter (\<lambda>c. via c = Group ''a.b'' ''g1'') tr) = [10, 11, 12, 13, 14]
        \<and> length (filter (\<lambda>c. via c = Group ''a.b'' ''g1'' \<and> callee c = 3) tr) = 3
        \<and> length (filter (\<lambda>c. via c = Group ''a.b'' ''g1'' \<and> callee c = 4) tr) = 2"
    using many fresh [rule_format, OF c] cnt c
    by (intro exI [of _ b'] exI [of _ tr]) (simp add: upt del: publishAll.simps)
  show ?thesis
    by (intro conjI) (rule demo_wf demo_rng1 demo_ord demo_match hs c p1 reg p2)+
qed

section \<open>Validation of a publish\<close>

text \<open>
  Claim C4.  \<open>Publish\<close> returns an error exactly when the subject is empty or the event
  is \<open>nil\<close>, and then it has called no handler and left the bus, cursors included, as it
  was.  With a subject that is not empty and an event that is not \<open>nil\<close> it returns \<open>nil\<close>;
  when no registered pattern matches the subject it does so without calling a handler
  and without changing the bus.  The bus is taken well formed and its cursors not
  wrapped around, which is what keeps the publish from panicking.
\<close>

theorem publish_validation:
  assumes "wellFormed b" and "cursorsBelow b (2 ^ 63)" and "validOrder b ord"
  shows "((\<exists>msg b' tr. Publish ord run b subject event = Inr (Some msg, b', tr))
            \<longleftrightarrow> subject = [] \<or> event = None)
    \<and> (subject = [] \<or> event = None
            \<longrightarrow> (\<exists>msg. Publish ord run b subject event = Inr (Some msg, b, [])))
    \<and> (subject \<noteq> [] \<and> event \<noteq> None
            \<longrightarrow> (\<exists>b' tr. Publish ord run b subject event = Inr (None, b', tr)))
    \<and> (subject \<noteq> [] \<and> event \<noteq> None
          \<and> (\<forall>p\<in>dom (handlers b) \<union> dom (groups b). \<not> matchSubject p subject)
            \<longrightarrow> Publish ord run b subject event = Inr (None, b, []))"
proof -
  have invalid: "\<exists>msg. Publish ord run b subject event = Inr (Some msg, b, [])"
    if "subject = [] \<or> event = None"
    using that by (auto simp: Publish_def)
  have valid: "\<exists>b' tr. Publish ord run b subject event = Inr (None, b', tr)"
    if "subject \<noteq> []" "event \<noteq> None"
  proof -
    from that(2) obtain e where e: "event = Some e" by auto
    from Publish_ok [OF assms that(1), of run e] show ?thesis
      unfolding e by blast
  qed
  have nomatch: "Publish ord run b subject event = Inr (None, b, [])"
    if "subject \<noteq> []" "event \<noteq> None"
      and none: "\<forall>p\<in>dom (handlers b) \<union> dom (groups b). \<not> matchSubject p subject"
  proof -
    from that(2) obtain e where e: "event = Some e" by auto
    from assms(3) have "set (handlerKeys ord) = dom (handlers b)"
      "set (groupKeys ord) = dom (groups b)"
      by (simp_all add: validOrder_def rangeOf_def)
    with none have "\<forall>p\<in>set (handlerKeys ord). \<not> matchSubject p subject"
      "\<forall>p\<in>set (groupKeys ord). \<not> matchSubject p subject" by auto
    then show ?thesis
      using that(1) by (simp add: Publish_def e broadcastLoop_nomatch groupLoop_nomatch)
  qed
  from invalid valid nomatch show ?thesis
    by (intro conjI impI iffI) (auto, fastforce+)
qed

text \<open>The theorem on \<open>demoBus\<close>: both violations, a matching and an unmatched subject.\<close>

theorem publish_validation_witness:
  "wellFormed demoBus \<and> cursorsBelow demoBus (2 ^ 63) \<and> validOrder demoBus demoOrder
   \<and> Publish demoOrder demoRun demoBus [] (Some 9) = Inr (Some ''subject is required'', demoBus, [])
   \<and> Publish demoOrder demoRun demoBus ''a.b'' None = Inr (Some ''event is required'', demoBus, [])
   \<and> (\<exists>b' tr. Publish demoOrder demoRun demoBus ''a.b'' (Some 9) = Inr (None, b', tr))
   \<and> Publish demoOrder demoRun demoBus ''a.c'' (Some 9) = Inr (None, demoBus, [])"
proof -
  have none: "\<forall>p\<in>dom (handlers demoBus) \<union> dom (groups demoBus). \<not> matchSubject p ''a.c''"
    by (simp add: demoBus_def matchSubject_def Contains_star_def)
  from publish_validation [OF demo_wf demo_rng demo_ord, of demoRun "[]" "Some 9"]
    publish_validation [OF demo_wf demo_rng demo_ord, of demoRun "''a.b''" "None"]
    publish_validation [OF demo_wf demo_rng demo_ord, of demoRun "''a.b''" "Some 9"]
    publish_validation [OF demo_wf demo_rng demo_ord, of demoRun "''a.c''" "Some 9"] none
  show ?thesis
    using demo_wf demo_rng demo_ord by (simp add: Publish_def)
qed

section \<open>Broadcast in registration order\<close>

text \<open>
  Claim C5.  \<open>Subscribe\<close> with a pattern that is not empty and a handler that is not \<open>nil\<close>
  appends the handler to the sequence of that pattern and changes nothing else; two
  calls with the same pattern leave both handlers at the end of the sequence, in the
  order of the calls.  A publish whose subject the pattern matches calls the handlers of
  that pattern, all of them, in the order of the sequence, one after the other with no
  other call in between.
\<close>

theorem broadcast_in_registration_order:
  assumes "wellFormed b" and "cursorsBelow b (2 ^ 63)" and "validOrder b ord"
    and "subject \<noteq> []" and "pattern \<noteq> []"
  shows "Subscribe b pattern (Some h)
        = (None, b\<lparr>handlers := (handlers b)(pattern \<mapsto> handlersAt (handlers b) pattern @ [Some h])\<rparr>)
    \<and> handlersAt (handlers (snd (Subscribe b pattern (Some h)))) pattern
        = handlersAt (handlers b) pattern @ [Some h]
    \<and> handlersAt (handlers (snd (Subscribe (snd (Subscribe b pattern (Some h))) pattern (Some h'))))
          pattern
        = handlersAt (handlers b) pattern @ [Some h, Some h']
    \<and> (matchSubject pattern subject
        \<longrightarrow> (\<exists>b' tr pre post. Publish ord run b subject (Some e) = Inr (None, b', tr)
              \<and> map (\<lambda>c. Some (callee c)) (filter (\<lambda>c. via c = Broadcast pattern) tr)
                   = handlersAt (handlers b) pattern
              \<and> tr = pre @ filter (\<lambda>c. via c = Broadcast pattern) tr @ post))"
proof (intro conjI impI)
  show "Subscribe b pattern (Some h)
        = (None, b\<lparr>handlers := (handlers b)(pattern \<mapsto> handlersAt (handlers b) pattern @ [Some h])\<rparr>)"
    by (rule Subscribe_appends(1) [OF assms(5)])
  show "handlersAt (handlers (snd (Subscribe b pattern (Some h)))) pattern
        = handlersAt (handlers b) pattern @ [Some h]"
    by (simp add: Subscribe_appends(2) [OF assms(5)])
  show "handlersAt (handlers (snd (Subscribe (snd (Subscribe b pattern (Some h))) pattern (Some h'))))
          pattern
        = handlersAt (handlers b) pattern @ [Some h, Some h']"
    by (simp add: Subscribe_appends(2) [OF assms(5)])
next
  assume m: "matchSubject pattern subject"
  let ?hs = "handlersAt (handlers b) pattern"
  let ?mine = "concat (map (callsOf run (Broadcast pattern) e) ?hs)"
  let ?gc = "groupCalls run b subject e (memberKeys ord) (groupKeys ord)"
  from Publish_ok [OF assms(1,2,3,4), of run e]
  obtain b' where run: "Publish ord run b subject (Some e)
            = Inr (None, b', broadcastCalls run b subject e (handlerKeys ord) @ ?gc)"
    by blast
  from assms(3) have d: "distinct (handlerKeys ord)" and k: "set (handlerKeys ord) = dom (handlers b)"
    by (simp_all add: validOrder_def rangeOf_def)
  from assms(1) have nn: "None \<notin> set ?hs" by (simp add: wellFormed_def)
  have filt: "filter (\<lambda>c. via c = Broadcast pattern)
        (broadcastCalls run b subject e (handlerKeys ord) @ ?gc) = ?mine"
  proof (cases "pattern \<in> set (handlerKeys ord)")
    case True
    with m show ?thesis
      by (simp add: filter_broadcastCalls [OF d] filter_groupCalls_broadcast)
  next
    case False
    with k have "?hs = []" by (auto simp: handlersAt_def split: option.splits)
    with False show ?thesis
      by (simp add: filter_broadcastCalls [OF d] filter_groupCalls_broadcast)
  qed
  have "\<exists>pre post. broadcastCalls run b subject e (handlerKeys ord) @ ?gc = pre @ ?mine @ post"
  proof (cases "pattern \<in> set (handlerKeys ord)")
    case True
    then obtain xs ys where split: "handlerKeys ord = xs @ pattern # ys"
      by (auto dest: split_list)
    have "broadcastCalls run b subject e (pattern # ys)
        = ?mine @ broadcastCalls run b subject e ys"
      using m by (simp add: broadcastCalls_def)
    then have "broadcastCalls run b subject e (handlerKeys ord) @ ?gc
        = broadcastCalls run b subject e xs @ ?mine @ (broadcastCalls run b subject e ys @ ?gc)"
      by (simp add: split broadcastCalls_append)
    then show ?thesis by blast
  next
    case False
    with k have "?hs = []" by (auto simp: handlersAt_def split: option.splits)
    then have "broadcastCalls run b subject e (handlerKeys ord) @ ?gc
        = [] @ ?mine @ (broadcastCalls run b subject e (handlerKeys ord) @ ?gc)"
      by simp
    then show ?thesis by blast
  qed
  then obtain pre post where
    "broadcastCalls run b subject e (handlerKeys ord) @ ?gc = pre @ ?mine @ post" by blast
  with run filt callee_handler_calls [OF nn, of run "Broadcast pattern" e]
  show "\<exists>b' tr pre post. Publish ord run b subject (Some e) = Inr (None, b', tr)
              \<and> map (\<lambda>c. Some (callee c)) (filter (\<lambda>c. via c = Broadcast pattern) tr) = ?hs
              \<and> tr = pre @ filter (\<lambda>c. via c = Broadcast pattern) tr @ post"
    by (intro exI [of _ b'] exI [of _ "broadcastCalls run b subject e (handlerKeys ord) @ ?gc"]
        exI [of _ pre] exI [of _ post]) simp
qed

text \<open>The theorem on \<open>demoBus\<close>, whose pattern \<open>a.b\<close> has the handlers \<open>1\<close> and \<open>2\<close>.\<close>

theorem broadcast_in_registration_order_witness:
  "wellFormed demoBus \<and> cursorsBelow demoBus (2 ^ 63) \<and> validOrder demoBus demoOrder
   \<and> matchSubject ''a.b'' ''a.b''
   \<and> handlersAt (handlers demoBus) ''a.b'' = [Some 1, Some 2]
   \<and> handlersAt (handlers (snd (Subscribe demoBus ''a.b'' (Some 8)))) ''a.b''
        = [Some 1, Some 2, Some 8]
   \<and> handlersAt (handlers (snd (Subscribe (snd (Subscribe demoBus ''a.b'' (Some 8))) ''a.b'' (Some 1))))
        ''a.b'' = [Some 1, Some 2, Some 8, Some 1]
   \<and> (\<exists>b' tr pre post. Publish demoOrder demoRun demoBus ''a.b'' (Some 9) = Inr (None, b', tr)
        \<and> map (\<lambda>c. Some (callee c)) (filter (\<lambda>c. via c = Broadcast ''a.b'') tr)
             = [Some 1, Some 2]
        \<and> tr = pre @ filter (\<lambda>c. via c = Broadcast ''a.b'') tr @ post)"
proof -
  have hs: "handlersAt (handlers demoBus) ''a.b'' = [Some 1, Some 2]"
    by (simp add: demoBus_def handlersAt_def)
  have ne: "''a.b'' \<noteq> []" by simp
  note inst = broadcast_in_registration_order [OF demo_wf demo_rng demo_ord ne ne,
      of 8 1 demoRun 9, unfolded hs]
  from inst [THEN conjunct2, THEN conjunct2, THEN conjunct2, THEN mp, OF demo_match]
  obtain b' tr pre post where p: "Publish demoOrder demoRun demoBus ''a.b'' (Some 9) = Inr (None, b', tr)"
    and c: "map (\<lambda>c. Some (callee c)) (filter (\<lambda>c. via c = Broadcast ''a.b'') tr) = [Some 1, Some 2]"
    and t: "tr = pre @ filter (\<lambda>c. via c = Broadcast ''a.b'') tr @ post"
    by (elim exE conjE)
  have s1: "handlersAt (handlers (snd (Subscribe demoBus ''a.b'' (Some 8)))) ''a.b''
        = [Some 1, Some 2, Some 8]"
    using inst [THEN conjunct2, THEN conjunct1] by simp
  have s2: "handlersAt (handlers (snd (Subscribe (snd (Subscribe demoBus ''a.b'' (Some 8)))
        ''a.b'' (Some 1)))) ''a.b'' = [Some 1, Some 2, Some 8, Some 1]"
    using inst [THEN conjunct2, THEN conjunct2, THEN conjunct1] by simp
  show ?thesis
    by (intro conjI exI [of _ b'] exI [of _ tr] exI [of _ pre] exI [of _ post])
       (rule demo_wf demo_rng demo_ord demo_match hs s1 s2 p c t)+
qed

section \<open>Close\<close>

text \<open>
  Claim C6.  \<open>Close\<close> returns \<open>nil\<close> and leaves the bus that \<open>NewMemoryBus\<close> makes.  A publish
  after it calls no handler and returns \<open>nil\<close>.  After one \<open>Subscribe\<close> on the closed bus, a
  publish to a subject that the pattern matches calls that handler, once, and returns
  \<open>nil\<close>.
\<close>

theorem close_resets:
  "Close b = (None, NewMemoryBus)
   \<and> (subject \<noteq> [] \<and> validOrder (snd (Close b)) ord
        \<longrightarrow> Publish ord run (snd (Close b)) subject (Some e) = Inr (None, NewMemoryBus, []))
   \<and> (pattern \<noteq> [] \<and> subject \<noteq> [] \<and> matchSubject pattern subject
        \<and> validOrder (snd (Subscribe (snd (Close b)) pattern (Some h))) ord'
        \<longrightarrow> Publish ord' run (snd (Subscribe (snd (Close b)) pattern (Some h))) subject (Some e)
              = Inr (None, snd (Subscribe (snd (Close b)) pattern (Some h)),
                     [\<lparr>callee = h, arg = e, via = Broadcast pattern, returned = run h e\<rparr>]))"
proof (intro conjI impI)
  show c: "Close b = (None, NewMemoryBus)"
    by (simp add: Close_def NewMemoryBus_def)
  {
    assume a: "subject \<noteq> [] \<and> validOrder (snd (Close b)) ord"
    then have "handlerKeys ord = []" "groupKeys ord = []"
      by (simp_all add: c validOrder_def rangeOf_def NewMemoryBus_def)
    with a show "Publish ord run (snd (Close b)) subject (Some e) = Inr (None, NewMemoryBus, [])"
      by (simp add: c Publish_def)
  }
  {
    let ?b1 = "snd (Subscribe (snd (Close b)) pattern (Some h))"
    assume a: "pattern \<noteq> [] \<and> subject \<noteq> [] \<and> matchSubject pattern subject
        \<and> validOrder ?b1 ord'"
    then have b1: "?b1 = NewMemoryBus\<lparr>handlers := [pattern \<mapsto> [Some h]]\<rparr>"
      by (simp add: c Subscribe_def NewMemoryBus_def handlersAt_def)
    from a have "distinct (handlerKeys ord')" "set (handlerKeys ord') = {pattern}"
      and g: "groupKeys ord' = []"
      by (simp_all add: b1 validOrder_def rangeOf_def NewMemoryBus_def)
    then have k: "handlerKeys ord' = [pattern]" by (simp add: distinct_singleton)
    from a show "Publish ord' run ?b1 subject (Some e)
        = Inr (None, ?b1, [\<lparr>callee = h, arg = e, via = Broadcast pattern, returned = run h e\<rparr>])"
      unfolding b1 by (simp add: Publish_def k g handlersAt_def invoke_def NewMemoryBus_def)
  }
qed

text \<open>
  The theorem on \<open>demoBus\<close>: after \<open>Close\<close> a publish to \<open>a.b\<close> reaches nobody; after a new
  registration for \<open>a.*\<close> it reaches the new handler.
\<close>

theorem close_resets_witness:
  "Close demoBus = (None, NewMemoryBus)
   \<and> validOrder (snd (Close demoBus)) emptyOrder
   \<and> Publish emptyOrder demoRun (snd (Close demoBus)) ''a.b'' (Some 9) = Inr (None, NewMemoryBus, [])
   \<and> matchSubject ''a.*'' ''a.b''
   \<and> validOrder (snd (Subscribe (snd (Close demoBus)) ''a.*'' (Some 1))) starOrder
   \<and> Publish starOrder demoRun (snd (Subscribe (snd (Close demoBus)) ''a.*'' (Some 1))) ''a.b'' (Some 9)
        = Inr (None, snd (Subscribe (snd (Close demoBus)) ''a.*'' (Some 1)),
               [\<lparr>callee = 1, arg = 9, via = Broadcast ''a.*'', returned = Some ''boom''\<rparr>])"
proof -
  have v0: "validOrder (snd (Close demoBus)) emptyOrder"
    by (simp add: Close_def validOrder_def rangeOf_def emptyOrder_def)
  have v1: "validOrder (snd (Subscribe (snd (Close demoBus)) ''a.*'' (Some 1))) starOrder"
    by (simp add: Close_def Subscribe_def validOrder_def rangeOf_def starOrder_def)
  note inst = close_resets [of demoBus "''a.b''" emptyOrder demoRun 9 "''a.*''" 1 starOrder]
  have ne: "''a.b'' \<noteq> []" "''a.*'' \<noteq> []" by simp_all
  have c: "Close demoBus = (None, NewMemoryBus)"
    by (rule inst [THEN conjunct1])
  have p0: "Publish emptyOrder demoRun (snd (Close demoBus)) ''a.b'' (Some 9)
      = Inr (None, NewMemoryBus, [])"
    by (rule inst [THEN conjunct2, THEN conjunct1, THEN mp]) (intro conjI ne v0)
  have p1: "Publish starOrder demoRun (snd (Subscribe (snd (Close demoBus)) ''a.*'' (Some 1)))
        ''a.b'' (Some 9)
      = Inr (None, snd (Subscribe (snd (Close demoBus)) ''a.*'' (Some 1)),
             [\<lparr>callee = 1, arg = 9, via = Broadcast ''a.*'', returned = demoRun 1 9\<rparr>])"
    by (rule inst [THEN conjunct2, THEN conjunct2, THEN mp]) (intro conjI ne star_match v1)
  have r: "demoRun 1 9 = Some ''boom''" by (simp add: demoRun_def)
  show ?thesis
    by (intro conjI) (rule c v0 p0 star_match v1 p1 [unfolded r])+
qed

section \<open>Groups of one pattern are independent\<close>

text \<open>
  Claim C8.  Two different groups under a pattern that matches the subject, each with at
  least one handler: a publish dispatches exactly one call from each and advances each
  cursor by one.  What the first group gets does not depend on the rest of the bus: on
  any other bus in which this group has the same handlers and the same cursor (whatever
  the other group's handlers and cursor are, and whatever the iteration order), the
  publish makes the same call for this group and leaves its cursor at the same value.
\<close>

theorem independent_groups:
  assumes "wellFormed b" and "cursorsBelow b (2 ^ 63)" and "validOrder b ord"
    and "subject \<noteq> []" and "matchSubject p subject" and "g1 \<noteq> g2"
    and "handlersAt (groupsAt (groups b) p) g1 \<noteq> []"
    and "handlersAt (groupsAt (groups b) p) g2 \<noteq> []"
  shows "\<exists>b' tr. Publish ord run b subject (Some e) = Inr (None, b', tr)
    \<and> length (filter (\<lambda>c. via c = Group p g1) tr) = 1
    \<and> length (filter (\<lambda>c. via c = Group p g2) tr) = 1
    \<and> cursor (groupIndex b') p g1 = cursor (groupIndex b) p g1 + 1
    \<and> cursor (groupIndex b') p g2 = cursor (groupIndex b) p g2 + 1
    \<and> (\<forall>b2 ord2. wellFormed b2 \<and> cursorsBelow b2 (2 ^ 63) \<and> validOrder b2 ord2
          \<and> handlersAt (groupsAt (groups b2) p) g1 = handlersAt (groupsAt (groups b) p) g1
          \<and> cursor (groupIndex b2) p g1 = cursor (groupIndex b) p g1
        \<longrightarrow> (\<exists>b2' tr2. Publish ord2 run b2 subject (Some e) = Inr (None, b2', tr2)
              \<and> filter (\<lambda>c. via c = Group p g1) tr2 = filter (\<lambda>c. via c = Group p g1) tr
              \<and> cursor (groupIndex b2') p g1 = cursor (groupIndex b') p g1))"
proof -
  from Publish_calls [OF assms(1,2,3,4), of run e]
  obtain b' tr where run: "Publish ord run b subject (Some e) = Inr (None, b', tr)"
    and st: "stepped b b' (dispatched b subject)"
    and gc: "\<And>g. filter (\<lambda>c. via c = Group p g) tr
                = selectCall run p (groupsAt (groups b) p) (groupIndex b) e g"
    using assms(5) by auto
  from st have cur: "\<And>g. cursor (groupIndex b') p g
      = cursor (groupIndex b) p g + (if dispatched b subject p g then 1 else 0)"
    by (simp add: stepped_def)
  have one: "length (selectCall run p (groupsAt (groups b) p) (groupIndex b) e g) = 1"
    if "handlersAt (groupsAt (groups b) p) g \<noteq> []" for g
    using selectCall_single [OF wellFormed_groups [OF assms(1)] that, of "groupIndex b" p run e]
    by auto
  have other: "\<exists>b2' tr2. Publish ord2 run b2 subject (Some e) = Inr (None, b2', tr2)
              \<and> filter (\<lambda>c. via c = Group p g1) tr2 = filter (\<lambda>c. via c = Group p g1) tr
              \<and> cursor (groupIndex b2') p g1 = cursor (groupIndex b') p g1"
    if wf2: "wellFormed b2" and rng2: "cursorsBelow b2 (2 ^ 63)" and ord2: "validOrder b2 ord2"
      and hs2: "handlersAt (groupsAt (groups b2) p) g1 = handlersAt (groupsAt (groups b) p) g1"
      and c2: "cursor (groupIndex b2) p g1 = cursor (groupIndex b) p g1" for b2 ord2
  proof -
    from Publish_calls [OF wf2 rng2 ord2 assms(4), of run e]
    obtain b2' tr2 where run2: "Publish ord2 run b2 subject (Some e) = Inr (None, b2', tr2)"
      and st2: "stepped b2 b2' (dispatched b2 subject)"
      and gc2: "filter (\<lambda>c. via c = Group p g1) tr2
                = selectCall run p (groupsAt (groups b2) p) (groupIndex b2) e g1"
      using assms(5) by auto
    from hs2 c2 have "selectCall run p (groupsAt (groups b2) p) (groupIndex b2) e g1
        = selectCall run p (groupsAt (groups b) p) (groupIndex b) e g1"
      by (simp add: selectCall_def Let_def)
    moreover from st2 hs2 c2 have "cursor (groupIndex b2') p g1 = cursor (groupIndex b') p g1"
      by (simp add: stepped_def cur dispatched_def)
    ultimately show ?thesis
      using run2 gc2 gc by simp
  qed
  from assms(5,7,8) have "dispatched b subject p g1" "dispatched b subject p g2"
    by (simp_all add: dispatched_def)
  with run other one [OF assms(7)] one [OF assms(8)] show ?thesis
    by (auto simp: gc cur)
qed

text \<open>
  The theorem on \<open>demoBus\<close> and \<open>otherBus\<close>, which differ in the group \<open>g2\<close> only: the group
  \<open>g1\<close> gets the same call from both.
\<close>

theorem independent_groups_witness:
  "wellFormed demoBus \<and> cursorsBelow demoBus (2 ^ 63) \<and> validOrder demoBus demoOrder
   \<and> wellFormed otherBus \<and> cursorsBelow otherBus (2 ^ 63) \<and> validOrder otherBus demoOrder
   \<and> matchSubject ''a.b'' ''a.b''
   \<and> handlersAt (groupsAt (groups demoBus) ''a.b'') ''g1'' = [Some 3, Some 4]
   \<and> handlersAt (groupsAt (groups demoBus) ''a.b'') ''g2'' = [Some 5]
   \<and> handlersAt (groupsAt (groups otherBus) ''a.b'') ''g1'' = [Some 3, Some 4]
   \<and> handlersAt (groupsAt (groups otherBus) ''a.b'') ''g2'' = [Some 5, Some 6, Some 7]
   \<and> cursor (groupIndex otherBus) ''a.b'' ''g1'' = cursor (groupIndex demoBus) ''a.b'' ''g1''
   \<and> cursor (groupIndex otherBus) ''a.b'' ''g2'' = 2
   \<and> cursor (groupIndex demoBus) ''a.b'' ''g2'' = 0
   \<and> (\<exists>b' tr b2' tr2.
        Publish demoOrder demoRun demoBus ''a.b'' (Some 9) = Inr (None, b', tr)
        \<and> Publish demoOrder demoRun otherBus ''a.b'' (Some 9) = Inr (None, b2', tr2)
        \<and> length (filter (\<lambda>c. via c = Group ''a.b'' ''g1'') tr) = 1
        \<and> length (filter (\<lambda>c. via c = Group ''a.b'' ''g2'') tr) = 1
        \<and> cursor (groupIndex b') ''a.b'' ''g1'' = 1
        \<and> cursor (groupIndex b') ''a.b'' ''g2'' = 1
        \<and> filter (\<lambda>c. via c = Group ''a.b'' ''g1'') tr2
             = filter (\<lambda>c. via c = Group ''a.b'' ''g1'') tr
        \<and> cursor (groupIndex b2') ''a.b'' ''g1'' = cursor (groupIndex b') ''a.b'' ''g1'')"
proof -
  have hs: "handlersAt (groupsAt (groups demoBus) ''a.b'') ''g1'' = [Some 3, Some 4]"
    "handlersAt (groupsAt (groups demoBus) ''a.b'') ''g2'' = [Some 5]"
    "handlersAt (groupsAt (groups otherBus) ''a.b'') ''g1'' = [Some 3, Some 4]"
    "handlersAt (groupsAt (groups otherBus) ''a.b'') ''g2'' = [Some 5, Some 6, Some 7]"
    by (simp_all add: demoBus_def otherBus_def groupsAt_def handlersAt_def)
  have c: "cursor (groupIndex otherBus) ''a.b'' ''g1'' = 0"
    "cursor (groupIndex demoBus) ''a.b'' ''g1'' = 0"
    "cursor (groupIndex otherBus) ''a.b'' ''g2'' = 2"
    "cursor (groupIndex demoBus) ''a.b'' ''g2'' = 0"
    by (simp_all add: demoBus_def otherBus_def cursor_def)
  have ne: "''g1'' \<noteq> ''g2''" "handlersAt (groupsAt (groups demoBus) ''a.b'') ''g1'' \<noteq> []"
    "handlersAt (groupsAt (groups demoBus) ''a.b'') ''g2'' \<noteq> []"
    by (simp_all add: hs)
  from independent_groups [OF demo_wf demo_rng demo_ord _ demo_match ne, of demoRun 9]
  obtain b' tr where run: "Publish demoOrder demoRun demoBus ''a.b'' (Some 9) = Inr (None, b', tr)"
    and facts: "length (filter (\<lambda>c. via c = Group ''a.b'' ''g1'') tr) = 1"
      "length (filter (\<lambda>c. via c = Group ''a.b'' ''g2'') tr) = 1"
      "cursor (groupIndex b') ''a.b'' ''g1'' = cursor (groupIndex demoBus) ''a.b'' ''g1'' + 1"
      "cursor (groupIndex b') ''a.b'' ''g2'' = cursor (groupIndex demoBus) ''a.b'' ''g2'' + 1"
    and indep: "\<forall>b2 ord2. wellFormed b2 \<and> cursorsBelow b2 (2 ^ 63) \<and> validOrder b2 ord2
          \<and> handlersAt (groupsAt (groups b2) ''a.b'') ''g1''
             = handlersAt (groupsAt (groups demoBus) ''a.b'') ''g1''
          \<and> cursor (groupIndex b2) ''a.b'' ''g1'' = cursor (groupIndex demoBus) ''a.b'' ''g1''
        \<longrightarrow> (\<exists>b2' tr2. Publish ord2 demoRun b2 ''a.b'' (Some 9) = Inr (None, b2', tr2)
              \<and> filter (\<lambda>c. via c = Group ''a.b'' ''g1'') tr2
                   = filter (\<lambda>c. via c = Group ''a.b'' ''g1'') tr
              \<and> cursor (groupIndex b2') ''a.b'' ''g1'' = cursor (groupIndex b') ''a.b'' ''g1'')"
    by blast
  from indep [rule_format, of otherBus demoOrder] other_wf other_rng other_ord hs c
  obtain b2' tr2 where "Publish demoOrder demoRun otherBus ''a.b'' (Some 9) = Inr (None, b2', tr2)"
    "filter (\<lambda>c. via c = Group ''a.b'' ''g1'') tr2 = filter (\<lambda>c. via c = Group ''a.b'' ''g1'') tr"
    "cursor (groupIndex b2') ''a.b'' ''g1'' = cursor (groupIndex b') ''a.b'' ''g1''"
    by auto
  with run facts show ?thesis
    using demo_wf demo_rng demo_ord other_wf other_rng other_ord demo_match hs c
    by (intro conjI exI [of _ b'] exI [of _ tr] exI [of _ b2'] exI [of _ tr2]) simp_all
qed

section \<open>Groups without handlers and the advance of the cursor\<close>

text \<open>
  Claim C9.  In a publish, a group whose handler list is empty is skipped: no call is
  dispatched from it and its cursor keeps its value.  A group with at least one handler
  under a matching pattern gets exactly one call, and its cursor is advanced by exactly
  one, whatever the number of its handlers.  Groups under a pattern that does not match
  are left alone.
\<close>

theorem empty_group_skipped:
  assumes "wellFormed b" and "cursorsBelow b (2 ^ 63)" and "validOrder b ord"
    and "subject \<noteq> []"
  shows "\<exists>b' tr. Publish ord run b subject (Some e) = Inr (None, b', tr)
    \<and> (\<forall>p g. handlersAt (groupsAt (groups b) p) g = []
          \<longrightarrow> filter (\<lambda>c. via c = Group p g) tr = []
              \<and> cursor (groupIndex b') p g = cursor (groupIndex b) p g)
    \<and> (\<forall>p g. matchSubject p subject \<and> handlersAt (groupsAt (groups b) p) g \<noteq> []
          \<longrightarrow> length (filter (\<lambda>c. via c = Group p g) tr) = 1
              \<and> cursor (groupIndex b') p g = cursor (groupIndex b) p g + 1)
    \<and> (\<forall>p g. \<not> matchSubject p subject
          \<longrightarrow> filter (\<lambda>c. via c = Group p g) tr = []
              \<and> cursor (groupIndex b') p g = cursor (groupIndex b) p g)"
proof -
  from Publish_calls [OF assms, of run e]
  obtain b' tr where run: "Publish ord run b subject (Some e) = Inr (None, b', tr)"
    and st: "stepped b b' (dispatched b subject)"
    and gc: "\<And>p g. filter (\<lambda>c. via c = Group p g) tr
                = (if matchSubject p subject
                   then selectCall run p (groupsAt (groups b) p) (groupIndex b) e g else [])"
    by blast
  from st have cur: "\<And>p g. cursor (groupIndex b') p g
      = cursor (groupIndex b) p g + (if dispatched b subject p g then 1 else 0)"
    by (simp add: stepped_def)
  have one: "length (selectCall run p (groupsAt (groups b) p) (groupIndex b) e g) = 1"
    if "handlersAt (groupsAt (groups b) p) g \<noteq> []" for p g
    using selectCall_single [OF wellFormed_groups [OF assms(1)] that, of "groupIndex b" p run e]
    by auto
  show ?thesis
    using run one by (auto simp: gc cur dispatched_def selectCall_empty)
qed

text \<open>
  The theorem on \<open>idleBus\<close>: the empty group \<open>g0\<close> keeps its cursor \<open>7\<close>, the group \<open>g1\<close>
  goes from \<open>5\<close> to \<open>6\<close>, the group of the pattern \<open>a.c\<close> is not touched.
\<close>

theorem empty_group_skipped_witness:
  "wellFormed idleBus \<and> cursorsBelow idleBus (2 ^ 63) \<and> validOrder idleBus idleOrder
   \<and> groups idleBus ''a.b'' = Some [''g0'' \<mapsto> [], ''g1'' \<mapsto> [Some 3, Some 4]]
   \<and> matchSubject ''a.b'' ''a.b'' \<and> \<not> matchSubject ''a.c'' ''a.b''
   \<and> (\<exists>b' tr. Publish idleOrder demoRun idleBus ''a.b'' (Some 9) = Inr (None, b', tr)
        \<and> filter (\<lambda>c. via c = Group ''a.b'' ''g0'') tr = []
        \<and> cursor (groupIndex b') ''a.b'' ''g0'' = 7
        \<and> length (filter (\<lambda>c. via c = Group ''a.b'' ''g1'') tr) = 1
        \<and> cursor (groupIndex b') ''a.b'' ''g1'' = 6
        \<and> filter (\<lambda>c. via c = Group ''a.c'' ''g1'') tr = []
        \<and> cursor (groupIndex b') ''a.c'' ''g1'' = 0)"
proof -
  have m: "matchSubject ''a.b'' ''a.b''" "\<not> matchSubject ''a.c'' ''a.b''"
    by (simp_all add: matchSubject_def Contains_star_def)
  have g: "groups idleBus ''a.b'' = Some [''g0'' \<mapsto> [], ''g1'' \<mapsto> [Some 3, Some 4]]"
    by (simp add: idleBus_def)
  have h: "handlersAt (groupsAt (groups idleBus) ''a.b'') ''g0'' = []"
    "handlersAt (groupsAt (groups idleBus) ''a.b'') ''g1'' \<noteq> []"
    by (simp_all add: idleBus_def groupsAt_def handlersAt_def)
  have c: "cursor (groupIndex idleBus) ''a.b'' ''g0'' = 7"
    "cursor (groupIndex idleBus) ''a.b'' ''g1'' = 5"
    "cursor (groupIndex idleBus) ''a.c'' ''g1'' = 0"
    by (simp_all add: idleBus_def cursor_def)
  from empty_group_skipped [OF idle_wf idle_rng idle_ord, of "''a.b''" demoRun 9]
  obtain b' tr where "Publish idleOrder demoRun idleBus ''a.b'' (Some 9) = Inr (None, b', tr)"
    and "\<forall>p g. handlersAt (groupsAt (groups idleBus) p) g = []
          \<longrightarrow> filter (\<lambda>c. via c = Group p g) tr = []
              \<and> cursor (groupIndex b') p g = cursor (groupIndex idleBus) p g"
    and "\<forall>p g. matchSubject p ''a.b'' \<and> handlersAt (groupsAt (groups idleBus) p) g \<noteq> []
          \<longrightarrow> length (filter (\<lambda>c. via c = Group p g) tr) = 1
              \<and> cursor (groupIndex b') p g = cursor (groupIndex idleBus) p g + 1"
    and "\<forall>p g. \<not> matchSubject p ''a.b''
          \<longrightarrow> filter (\<lambda>c. via c = Group p g) tr = []
              \<and> cursor (groupIndex b') p g = cursor (groupIndex idleBus) p g"
    by auto
  with m g h c idle_wf idle_rng idle_ord show ?thesis
    by (intro conjI exI [of _ b'] exI [of _ tr]) simp_all
qed

section \<open>Literal patterns and glob patterns\<close>

text \<open>
  Claim C10.  A pattern without \<open>*\<close> matches exactly the subject equal to it, so that \<open>?\<close>
  and \<open>[\<close> in it are ordinary bytes.  A pattern with a \<open>*\<close> matches exactly when
  \<open>filepath.Match\<close> returns true for it, an error counting as no match, so that in such a
  pattern \<open>?\<close> stands for any one character other than the separator (shown for the
  one-byte characters) and a bracket expression for the characters it lists.  A pattern
  with a \<open>*\<close> and a badly formed chunk, such as a bracket that is not closed, matches no
  subject at all.
\<close>

theorem matchSubject_literal_or_glob:
  "(\<not> Contains_star pattern \<longrightarrow> matchSubject pattern subject = (pattern = subject))
   \<and> (Contains_star pattern
        \<longrightarrow> matchSubject pattern subject = (Match pattern subject = Inr True))
   \<and> (Contains_star pattern \<and> malformed pattern \<longrightarrow> \<not> matchSubject pattern subject)
   \<and> (c \<noteq> Separator \<and> (of_char c :: nat) < 0x80 \<longrightarrow> matchSubject ''*.?'' (''x.'' @ [c]))
   \<and> matchSubject ''a.?'' ''a.?'' \<and> \<not> matchSubject ''a.?'' ''a.b''
   \<and> matchSubject ''a.[bc]'' ''a.[bc]'' \<and> \<not> matchSubject ''a.[bc]'' ''a.b''
   \<and> matchSubject ''a.['' ''a.[''
   \<and> matchSubject ''*.[bc]'' ''x.b'' \<and> matchSubject ''*.[bc]'' ''x.c''
   \<and> \<not> matchSubject ''*.[bc]'' ''x.d'' \<and> \<not> matchSubject ''*.[bc]'' ''x.[bc]''
   \<and> malformed ''*.['' \<and> \<not> matchSubject ''*.['' ''x.[''"
proof -
  have glob: "matchSubject p s = (Match p s = Inr True)" if "Contains_star p" for p s
    using that by (cases "Match p s") (auto simp: matchSubject_def ReplaceAll_star_id)
  have bad: "\<not> matchSubject p s" if "Contains_star p" "malformed p" for p s
    using that glob [of p s] Match_True_wellformed [of p s] by blast
  have lit: "\<not> Contains_star p \<longrightarrow> matchSubject p s = (p = s)" for p s
    by (simp add: matchSubject_def)
  have any: "c \<noteq> Separator \<and> (of_char c :: nat) < 0x80 \<longrightarrow> matchSubject ''*.?'' (''x.'' @ [c])"
    using question_mark_any [of c] by blast
  have ex1: "matchSubject ''a.?'' ''a.?''" "\<not> matchSubject ''a.?'' ''a.b''"
    "matchSubject ''a.[bc]'' ''a.[bc]''" "\<not> matchSubject ''a.[bc]'' ''a.b''"
    "matchSubject ''a.['' ''a.[''"
    by (simp_all add: matchSubject_def Contains_star_def)
  have ex2: "matchSubject ''*.[bc]'' ''x.b''" "matchSubject ''*.[bc]'' ''x.c''"
    "\<not> matchSubject ''*.[bc]'' ''x.d''" "\<not> matchSubject ''*.[bc]'' ''x.[bc]''"
    by (simp_all add: glob_eval)
  have star: "Contains_star ''*.[''" by (simp add: Contains_star_def)
  have unclosed: "\<not> matchSubject ''*.['' ''x.[''"
    by (rule bad [OF star malformed_open_bracket])
  show ?thesis
    by (intro conjI impI lit [rule_format] glob bad any [rule_format] ex1 ex2
        malformed_open_bracket unclosed; (elim conjE)?; assumption?)
qed

text \<open>
  The theorem at the pattern \<open>a.[\<close>, which has no star and matches itself, and at the
  pattern \<open>*.[\<close>, which has a star and an open bracket and does not even match itself.
\<close>

theorem matchSubject_literal_or_glob_witness:
  "\<not> Contains_star ''a.['' \<and> matchSubject ''a.['' ''a.[''
   \<and> \<not> matchSubject ''a.['' ''a.b''
   \<and> Contains_star ''*.['' \<and> malformed ''*.[''
   \<and> \<not> matchSubject ''*.['' ''*.[''
   \<and> Match ''*.['' ''*.['' \<noteq> Inr True
   \<and> CHR ''b'' \<noteq> Separator \<and> (of_char (CHR ''b'') :: nat) < 0x80
   \<and> matchSubject ''*.?'' ''x.b''"
proof -
  have s0: "\<not> Contains_star ''a.[''" and s1: "Contains_star ''*.[''"
    by (simp_all add: Contains_star_def)
  have c: "CHR ''b'' \<noteq> Separator" "(of_char (CHR ''b'') :: nat) < 0x80"
    by (simp_all add: Separator_def)
  note a = matchSubject_literal_or_glob [of "''a.[''" "''a.[''" "CHR ''b''"]
  note a' = matchSubject_literal_or_glob [of "''a.[''" "''a.b''" "CHR ''b''"]
  note b = matchSubject_literal_or_glob [of "''*.[''" "''*.[''" "CHR ''b''"]
  from a s0 have r1: "matchSubject ''a.['' ''a.[''" by simp
  from a' s0 have r2: "\<not> matchSubject ''a.['' ''a.b''" by simp
  from b have m: "malformed ''*.[''" by simp
  from b s1 m have r3: "\<not> matchSubject ''*.['' ''*.[''" by blast
  from b s1 r3 have r4: "Match ''*.['' ''*.['' \<noteq> Inr True" by blast
  from b c have r5: "matchSubject ''*.?'' ''x.b''" by simp
  show ?thesis
    by (intro conjI) (rule s0 s1 c r1 r2 m r3 r4 r5)+
qed

end
